theory Spec2Isabelle
  imports Complex_Main "HOL-Library.Word" "HOL-Library.Log_Nat"
begin

section \<open>Line art conversion: pixel buffers and numbers\<close>

text \<open>
  The conversion library \<^verbatim>\<open>src/lib/lineArt.ts\<close> works on the \<^verbatim>\<open>data\<close> array of an
  \<^verbatim>\<open>ImageData\<close>: a \<^verbatim>\<open>Uint8ClampedArray\<close> holding four bytes (red, green, blue, alpha) per
  pixel, row by row. A byte is an 8-bit word, the array is a list of bytes.

  A typed array is read with \<open>read_at\<close>: an index that is negative or beyond the end
  reads \<^verbatim>\<open>undefined\<close>, which is \<open>None\<close> here. A store beyond the end is dropped by
  JavaScript, which is what \<open>xs[i := v]\<close> does in HOL.
\<close>

type_synonym byte = "8 word"

definition read_at :: "'a list \<Rightarrow> int \<Rightarrow> 'a option" where
  "read_at xs i = (if 0 \<le> i \<and> nat i < length xs then Some (xs ! nat i) else None)"

datatype dom_error = IndexSizeError

text \<open>\<^verbatim>\<open>new ImageData(width, height)\<close>: a zero-filled buffer; the constructor throws when a
  side is zero.\<close>

definition newImageData :: "nat \<Rightarrow> nat \<Rightarrow> dom_error + byte list" where
  "newImageData width height =
     (if width = 0 \<or> height = 0 then Inl IndexSizeError
      else Inr (replicate (width * height * 4) 0))"

section \<open>JavaScript numbers\<close>

text \<open>
  A JavaScript number is an IEEE 754 double. A finite number is modelled by the rational it
  stands for and \<^verbatim>\<open>NaN\<close> by \<open>None\<close>; an arithmetic operation is the exact operation
  followed by \<open>fl\<close>, which rounds a rational to the nearest double, a tie to the one with
  the even significand. Overflow and subnormal numbers are left out: every quantity of the
  conversion lies between \<open>2 ^ - 64\<close> and \<open>2 ^ 64\<close> in magnitude. Sums and products of
  integers below \<open>2 ^ 53\<close> are exact and are written without \<open>fl\<close>.

  \<open>binade q\<close> is the exponent \<open>e\<close> with \<open>2 ^ e \<le> q < 2 ^ (e + 1)\<close> of a positive \<open>q\<close>,
  found from the bit lengths of numerator and denominator.
\<close>

definition binade :: "rat \<Rightarrow> int" where
  "binade q =
     (case quotient_of q of
        (a, b) \<Rightarrow> let d = bitlen a - bitlen b in if 2 powi d \<le> q then d else d - 1)"

text \<open>Rounding to the nearest integer, a tie to the even one.\<close>

definition roundEven :: "rat \<Rightarrow> int" where
  "roundEven x =
     (let f = \<lfloor>x\<rfloor>; r = x - of_int f
      in if r < 1 / 2 then f
         else if 1 / 2 < r then f + 1
         else if even f then f else f + 1)"

text \<open>A double has a significand of 53 bits: in the binade of \<open>q\<close> the doubles are the
  multiples of \<open>2 ^ (binade q - 52)\<close>.\<close>

definition fl :: "rat \<Rightarrow> rat" where
  "fl q =
     (if q = 0 then 0
      else let u = 2 powi (binade \<bar>q\<bar> - 52) in of_int (roundEven (q / u)) * u)"

text \<open>A \<^verbatim>\<open>Float32Array\<close> holds single precision numbers, whose significand has 24 bits:
  a store rounds the number with \<open>fl32\<close>.\<close>

definition fl32 :: "rat \<Rightarrow> rat" where
  "fl32 q =
     (if q = 0 then 0
      else let u = 2 powi (binade \<bar>q\<bar> - 23) in of_int (roundEven (q / u)) * u)"

text \<open>The two roundings are instances of rounding to a significand of \<open>p + 1\<close> bits; the
  properties of both are proved for \<open>nearest p\<close>.\<close>

definition nearest :: "int \<Rightarrow> rat \<Rightarrow> rat" where
  "nearest p q =
     (if q = 0 then 0
      else let u = 2 powi (binade \<bar>q\<bar> - p) in of_int (roundEven (q / u)) * u)"

text \<open>
  \<^verbatim>\<open>Math.sqrt\<close> returns the double nearest to the square root, and \<^verbatim>\<open>NaN\<close> for a negative
  number. The square root of \<open>x\<close> lies in the binade \<open>binade x div 2\<close>; with \<open>u\<close> the spacing
  of the doubles there, the result is \<open>k * u\<close> for the integer \<open>k\<close> nearest to the square
  root of \<open>x / u\<^sup>2\<close>, found from the integer square root of its integer part by comparing
  \<open>x / u\<^sup>2\<close> with \<open>(k + 1/2)\<^sup>2\<close>.
\<close>

function isqrt :: "int \<Rightarrow> int" where
  "isqrt n =
     (if n \<le> 0 then 0
      else let r = 2 * isqrt (n div 4)
           in if (r + 1) * (r + 1) \<le> n then r + 1 else r)"
  by pat_completeness auto
termination
  by (relation "measure nat") auto

declare isqrt.simps [simp del]

definition js_sqrt :: "rat \<Rightarrow> rat option" where
  "js_sqrt x =
     (if x < 0 then None
      else if x = 0 then Some 0
      else let e = binade x div 2;
               u = 2 powi (e - 52);
               n = x / (u * u);
               k = isqrt \<lfloor>n\<rfloor>;
               h = (of_int k + 1 / 2) * (of_int k + 1 / 2)
           in Some (of_int (if h < n then k + 1
                            else if n < h then k
                            else if even k then k else k + 1) * u))"

section \<open>thresholdEdges\<close>

text \<open>
  The gradient map is a \<^verbatim>\<open>Float32Array\<close>, modelled by the list of the numbers stored into
  it. Only single precision numbers can be in such an array, so an element is read through
  \<open>fl32\<close>: on a list of single precision numbers this reads the list itself, and a list
  with other numbers stands for the array that storing them gives.
\<close>

definition f32_at :: "rat option list \<Rightarrow> nat \<Rightarrow> rat option" where
  "f32_at magnitude i = map_option fl32 (magnitude ! i)"

text \<open>\<^verbatim>\<open>magnitude[i] > c\<close> on a number that may be \<^verbatim>\<open>NaN\<close>: a comparison with \<^verbatim>\<open>NaN\<close> is false.\<close>

definition js_gt :: "rat option \<Rightarrow> rat \<Rightarrow> bool" where
  "js_gt m c = (case m of None \<Rightarrow> False | Some v \<Rightarrow> v > c)"

text \<open>The first loop of \<^verbatim>\<open>thresholdEdges\<close>:
  \<^verbatim>\<open>let maxMag = 0; for (i...) if (magnitude[i] > maxMag) maxMag = magnitude[i];\<close>\<close>

definition maxMagStep :: "rat option list \<Rightarrow> nat \<Rightarrow> rat \<Rightarrow> rat" where
  "maxMagStep magnitude i maxMag =
     (case f32_at magnitude i of
        None \<Rightarrow> maxMag
      | Some v \<Rightarrow> if v > maxMag then v else maxMag)"

definition maxMagLoop :: "rat option list \<Rightarrow> rat" where
  "maxMagLoop magnitude = fold (maxMagStep magnitude) [0..<length magnitude] 0"

text \<open>The body of the second loop: the colour of pixel \<open>i\<close> and its four stores.\<close>

definition edgeColor :: "rat option list \<Rightarrow> rat \<Rightarrow> nat \<Rightarrow> byte" where
  "edgeColor magnitude normalizedThreshold i =
     (let isEdge = js_gt (f32_at magnitude i) normalizedThreshold
      in if isEdge then 0 else 255)"

definition thresholdStep :: "rat option list \<Rightarrow> rat \<Rightarrow> nat \<Rightarrow> byte list \<Rightarrow> byte list" where
  "thresholdStep magnitude normalizedThreshold i data =
     (let color = edgeColor magnitude normalizedThreshold i
      in data[i * 4 := color, i * 4 + 1 := color, i * 4 + 2 := color, i * 4 + 3 := 255])"

text \<open>\<^verbatim>\<open>(threshold / 255) * maxMag\<close> is two operations on doubles: the quotient is rounded,
  and so is the product.\<close>

definition thresholdEdges ::
  "rat option list \<Rightarrow> nat \<Rightarrow> nat \<Rightarrow> rat \<Rightarrow> dom_error + byte list" where
  "thresholdEdges magnitude width height threshold =
     (case newImageData width height of
        Inl e \<Rightarrow> Inl e
      | Inr data \<Rightarrow>
          let maxMag = maxMagLoop magnitude;
              normalizedThreshold = fl (fl (threshold / 255) * maxMag)
          in Inr (fold (thresholdStep magnitude normalizedThreshold)
                    [0..<length magnitude] data))"

text \<open>Reading pixel \<open>i\<close> of a buffer, and the two colours of the line art.\<close>

definition rgba :: "byte list \<Rightarrow> nat \<Rightarrow> byte \<times> byte \<times> byte \<times> byte" where
  "rgba data i = (data ! (i * 4), data ! (i * 4 + 1), data ! (i * 4 + 2), data ! (i * 4 + 3))"

definition black :: "byte \<times> byte \<times> byte \<times> byte" where
  "black = (0, 0, 0, 255)"

definition white :: "byte \<times> byte \<times> byte \<times> byte" where
  "white = (255, 255, 255, 255)"

text \<open>The stores of one pass of the second loop, one value per array position: position
  \<open>i * 4 + c\<close> receives the colour for \<open>c < 3\<close> and 255 for the alpha channel.\<close>

definition thresholdVal :: "rat option list \<Rightarrow> rat \<Rightarrow> nat \<times> nat \<Rightarrow> byte" where
  "thresholdVal magnitude nt = (\<lambda>(i, c). if c = 3 then 255 else edgeColor magnitude nt i)"

definition blackCount :: "byte list \<Rightarrow> nat" where
  "blackCount data = length (filter (\<lambda>i. rgba data i = black) [0..<length data div 4])"

section \<open>dilate\<close>

text \<open>
  \<^verbatim>\<open>dilate\<close> copies the buffer (\<^verbatim>\<open>src\<close>), then for every interior pixel scans the red
  channel of the 3x3 neighbourhood in the copy for its minimum and stores it into the three
  colour channels of the live buffer. \<^verbatim>\<open>val < minVal\<close> is false when \<^verbatim>\<open>val\<close> is
  \<^verbatim>\<open>undefined\<close>.
\<close>

definition minStep :: "byte option \<Rightarrow> byte \<Rightarrow> byte" where
  "minStep val minVal =
     (case val of None \<Rightarrow> minVal | Some v \<Rightarrow> if v < minVal then v else minVal)"

definition dilateMin :: "byte list \<Rightarrow> nat \<Rightarrow> nat \<Rightarrow> nat \<Rightarrow> byte" where
  "dilateMin src width x y =
     fold (\<lambda>dy. fold (\<lambda>dx minVal.
             let val = read_at src (((int y + dy) * int width + (int x + dx)) * 4)
             in minStep val minVal) [-1, 0, 1])
       [-1, 0, 1] 255"

definition dilateStep :: "byte list \<Rightarrow> nat \<Rightarrow> nat \<Rightarrow> nat \<Rightarrow> byte list \<Rightarrow> byte list" where
  "dilateStep src width y x dst =
     (let minVal = dilateMin src width x y;
          idx = (y * width + x) * 4
      in dst[idx := minVal, idx + 1 := minVal, idx + 2 := minVal])"

definition dilate :: "byte list \<Rightarrow> nat \<Rightarrow> nat \<Rightarrow> byte list" where
  "dilate data width height =
     (let src = data; dst = data
      in fold (\<lambda>y. fold (\<lambda>x. dilateStep src width y x) [1..<width - 1]) [1..<height - 1] dst)"

text \<open>The loop of \<^verbatim>\<open>convertToLineArt\<close>:
  \<^verbatim>\<open>for (let i = 0; i < thickness; i++) output = dilate(output, width, height);\<close>\<close>

definition dilateLoop :: "nat \<Rightarrow> byte list \<Rightarrow> nat \<Rightarrow> nat \<Rightarrow> byte list" where
  "dilateLoop thickness output width height =
     fold (\<lambda>i output. dilate output width height) [0..<thickness] output"

section \<open>boxBlur\<close>

text \<open>
  \<^verbatim>\<open>sum += src[...]\<close> on a number: adding \<^verbatim>\<open>undefined\<close> gives \<^verbatim>\<open>NaN\<close>, and \<^verbatim>\<open>NaN\<close> stays.
  The sum of nine bytes is an integer. The variable \<^verbatim>\<open>sum\<close> of the source is \<open>acc\<close> here.
\<close>

definition js_add :: "int option \<Rightarrow> byte option \<Rightarrow> int option" where
  "js_add acc v =
     (case acc of None \<Rightarrow> None
      | Some s \<Rightarrow> (case v of None \<Rightarrow> None | Some b \<Rightarrow> Some (s + uint b)))"

text \<open>\<^verbatim>\<open>sum / 9\<close>, as the exact quotient. The double that JavaScript computes differs from
  it by less than \<open>2 ^ - 44\<close>, and a quotient of an integer by 9 that is not an integer is at
  least \<open>1 / 18\<close> away from every integer and from every half: the store below rounds both
  to the same byte.\<close>

definition js_div9 :: "int option \<Rightarrow> real option" where
  "js_div9 acc = (case acc of None \<Rightarrow> None | Some s \<Rightarrow> Some (of_int s / 9))"

text \<open>
  A store of a number into a \<^verbatim>\<open>Uint8ClampedArray\<close> converts it with ECMAScript's
  \<^verbatim>\<open>ToUint8Clamp\<close>: \<^verbatim>\<open>NaN\<close> becomes 0, the number is clamped to 0..255 and rounded to the
  nearest integer, a tie going to the even one.
\<close>

definition toUint8Clamp :: "real option \<Rightarrow> byte" where
  "toUint8Clamp n =
     (case n of
        None \<Rightarrow> 0
      | Some v \<Rightarrow>
          if v \<le> 0 then 0
          else if 255 \<le> v then 255
          else let f = \<lfloor>v\<rfloor>
               in if of_int f + 1 / 2 < v then word_of_int (f + 1)
                  else if v < of_int f + 1 / 2 then word_of_int f
                  else if even f then word_of_int f
                  else word_of_int (f + 1))"

definition blurSum :: "byte list \<Rightarrow> nat \<Rightarrow> nat \<Rightarrow> nat \<Rightarrow> nat \<Rightarrow> int option" where
  "blurSum src width x y c =
     fold (\<lambda>dy. fold (\<lambda>dx acc.
             js_add acc (read_at src (((int y + dy) * int width + (int x + dx)) * 4 + int c)))
           [-1, 0, 1])
       [-1, 0, 1] (Some 0)"

definition blurStep :: "byte list \<Rightarrow> nat \<Rightarrow> nat \<Rightarrow> nat \<Rightarrow> nat \<Rightarrow> byte list \<Rightarrow> byte list" where
  "blurStep src width y x c dst =
     (let acc = blurSum src width x y c
      in dst[(y * width + x) * 4 + c := toUint8Clamp (js_div9 acc)])"

definition boxBlur :: "byte list \<Rightarrow> nat \<Rightarrow> nat \<Rightarrow> byte list" where
  "boxBlur data width height =
     (let src = data; dst = data
      in fold (\<lambda>y. fold (\<lambda>x. fold (\<lambda>c. blurStep src width y x c) [0, 1, 2])
                      [1..<width - 1])
           [1..<height - 1] dst)"

text \<open>The loop of \<^verbatim>\<open>convertToLineArt\<close>:
  \<^verbatim>\<open>for (let i = 0; i < blurPasses; i++) imageData = boxBlur(imageData, width, height);\<close>\<close>

definition blurLoop :: "nat \<Rightarrow> byte list \<Rightarrow> nat \<Rightarrow> nat \<Rightarrow> byte list" where
  "blurLoop blurPasses imageData width height =
     fold (\<lambda>i imageData. boxBlur imageData width height) [0..<blurPasses] imageData"

section \<open>sobelEdge\<close>

definition sobelX :: "int list" where
  "sobelX = [-1, 0, 1, -2, 0, 2, -1, 0, 1]"

definition sobelY :: "int list" where
  "sobelY = [-1, -2, -1, 0, 0, 0, 1, 2, 1]"

text \<open>\<^verbatim>\<open>g += pixel * kernel[k]\<close>, where \<^verbatim>\<open>pixel\<close> may be \<^verbatim>\<open>undefined\<close> and \<open>g\<close> may be
  \<^verbatim>\<open>NaN\<close>.\<close>

definition js_mul_add :: "int option \<Rightarrow> byte option \<Rightarrow> int \<Rightarrow> int option" where
  "js_mul_add g pixel coeff =
     (case g of None \<Rightarrow> None
      | Some a \<Rightarrow> (case pixel of None \<Rightarrow> None | Some p \<Rightarrow> Some (a + uint p * coeff)))"

text \<open>The two inner loops: the state is \<open>(gx, gy, k)\<close>.\<close>

definition sobelAcc ::
  "byte list \<Rightarrow> nat \<Rightarrow> nat \<Rightarrow> nat \<Rightarrow> int option \<times> int option \<times> nat" where
  "sobelAcc data width x y =
     fold (\<lambda>dy. fold (\<lambda>dx (gx, gy, k).
             let pixel = read_at data (((int y + dy) * int width + (int x + dx)) * 4)
             in (js_mul_add gx pixel (sobelX ! k), js_mul_add gy pixel (sobelY ! k), k + 1))
           [-1, 0, 1])
       [-1, 0, 1] (Some 0, Some 0, 0)"

text \<open>\<^verbatim>\<open>Math.sqrt(gx * gx + gy * gy)\<close>. The two gradients are integers of at most
  \<open>4 * 255\<close> in magnitude, so the squares and their sum are exact; the square root is
  rounded to a double.\<close>

definition js_magnitude :: "int option \<Rightarrow> int option \<Rightarrow> rat option" where
  "js_magnitude gx gy =
     (case gx of None \<Rightarrow> None
      | Some a \<Rightarrow> (case gy of None \<Rightarrow> None | Some b \<Rightarrow> js_sqrt (of_int (a * a + b * b))))"

text \<open>\<^verbatim>\<open>magnitude[y * width + x] = ...\<close> stores the double into the \<^verbatim>\<open>Float32Array\<close>: the
  store rounds it to single precision.\<close>

definition sobelStep ::
  "byte list \<Rightarrow> nat \<Rightarrow> nat \<Rightarrow> nat \<Rightarrow> rat option list \<Rightarrow> rat option list" where
  "sobelStep data width y x magnitude =
     (case sobelAcc data width x y of
        (gx, gy, k) \<Rightarrow> magnitude[y * width + x := map_option fl32 (js_magnitude gx gy)])"

definition sobelEdge :: "byte list \<Rightarrow> nat \<Rightarrow> nat \<Rightarrow> rat option list" where
  "sobelEdge data width height =
     (let magnitude = replicate (width * height) (Some 0)
      in fold (\<lambda>y. fold (\<lambda>x. sobelStep data width y x) [1..<width - 1])
           [1..<height - 1] magnitude)"

section \<open>The conversion entry point of the editor\<close>

text \<open>
  \<^verbatim>\<open>convertWithAPI\<close> (\<^verbatim>\<open>src/lib/lineArtAPI.ts\<close>) and \<^verbatim>\<open>handleConvert\<close> of the colouring editor are
  asynchronous. Each awaited call either yields a value or rejects with an error, and the
  code only branches on which of the two happened; so the outcome of every awaited call is a
  parameter of the model, a value of \<open>js_error + 'a\<close> with \<open>Inl\<close> for the rejection. A call
  that never settles is not modelled: the request of \<^verbatim>\<open>convertWithAPI\<close> carries no timeout of
  its own, a timeout is a rejection of \<^verbatim>\<open>fetch\<close> by the browser.

  An error is the message of a thrown \<^verbatim>\<open>Error\<close>, or the status of the \<^verbatim>\<open>API error: status\<close>
  message.
\<close>

datatype js_error = Thrown string | ApiStatus nat

text \<open>The parsed body of a response: the fields the client reads, each possibly absent
  (\<^verbatim>\<open>undefined\<close>).\<close>

record json =
  detail :: "string option"
  image :: "string option"

text \<open>A response: \<^verbatim>\<open>response.ok\<close>, \<^verbatim>\<open>response.status\<close> and the outcome of
  \<^verbatim>\<open>response.json()\<close>.\<close>

record response =
  ok :: bool
  status :: nat
  body :: "js_error + json"

text \<open>
  \<^verbatim>\<open>convertWithAPI(file, options)\<close>, given the outcome of \<^verbatim>\<open>fileToBase64(file)\<close> and of the
  \<^verbatim>\<open>fetch\<close> of the \<^verbatim>\<open>/convert\<close> endpoint. It returns \<^verbatim>\<open>result.image\<close>, which is \<^verbatim>\<open>undefined\<close>
  (\<open>None\<close>) when the body has no such field.
\<close>

definition convertWithAPI ::
  "js_error + string \<Rightarrow> js_error + response \<Rightarrow> js_error + string option" where
  "convertWithAPI base64 fetched =
     (case base64 of
        Inl e \<Rightarrow> Inl e
      | Inr base64Image \<Rightarrow>
          (case fetched of
             Inl e \<Rightarrow> Inl e
           | Inr response \<Rightarrow>
               if \<not> ok response then
                 (let error = (case body response of
                                 Inl _ \<Rightarrow> \<lparr>detail = Some ''Unknown error'', image = None\<rparr>
                               | Inr j \<Rightarrow> j)
                  in Inl (case detail error of
                            None \<Rightarrow> ApiStatus (status response)
                          | Some d \<Rightarrow> if d = [] then ApiStatus (status response) else Thrown d))
               else
                 (case body response of
                    Inl e \<Rightarrow> Inl e
                  | Inr result \<Rightarrow> Inr (image result))))"

datatype quality = Quick | HQ

text \<open>
  The state of the editor that \<^verbatim>\<open>handleConvert\<close> reads and writes: the React state
  variables, the strokes painted on the canvas with the saved copy in
  \<^verbatim>\<open>drawingDataRef\<close>, and what the user was shown (\<^verbatim>\<open>alert\<close>) and what was logged.
\<close>

record editor =
  lineArtSrc :: "string option"
  selectedFile :: "string option"
  isConverting :: bool
  qualityMode :: quality
  apiAvailable :: "bool option"
  canvasPresent :: bool
  strokes :: "string list"
  drawingData :: "string list option"
  alerts :: "string list"
  consoleErrors :: "js_error list"

text \<open>The outcomes of the awaited calls of one run of \<^verbatim>\<open>handleConvert\<close>: the two calls
  inside \<^verbatim>\<open>convertWithAPI\<close>, \<^verbatim>\<open>fileToLineArt\<close> in the \<^verbatim>\<open>try\<close> block, and \<^verbatim>\<open>fileToLineArt\<close> in
  the \<^verbatim>\<open>catch\<close> block.\<close>

record world =
  apiBase64 :: "js_error + string"
  apiFetch :: "js_error + response"
  localFirst :: "js_error + string"
  localRetry :: "js_error + string"

definition hqNotice :: string where
  "hqNotice = ''HQ server unavailable, used quick conversion instead.''"

definition failedNotice :: string where
  "failedNotice = ''Failed to convert image. Please try again.''"

definition alert :: "string \<Rightarrow> editor \<Rightarrow> editor" where
  "alert msg st = st\<lparr>alerts := alerts st @ [msg]\<rparr>"

definition handleClear :: "editor \<Rightarrow> editor" where
  "handleClear st =
     (if canvasPresent st then st\<lparr>strokes := [], drawingData := None\<rparr> else st)"

definition handleConvert :: "world \<Rightarrow> editor \<Rightarrow> editor" where
  "handleConvert w st =
     (case selectedFile st of
        None \<Rightarrow> st
      | Some file \<Rightarrow>
          let st1 = st\<lparr>isConverting := True\<rparr>;
              attempt =
                (if qualityMode st = HQ \<and> apiAvailable st = Some True
                 then convertWithAPI (apiBase64 w) (apiFetch w)
                 else (case localFirst w of Inl e \<Rightarrow> Inl e | Inr dataUrl \<Rightarrow> Inr (Some dataUrl)));
              st2 =
                (case attempt of
                   Inr dataUrl \<Rightarrow> handleClear (st1\<lparr>lineArtSrc := dataUrl\<rparr>)
                 | Inl error \<Rightarrow>
                     let st3 = st1\<lparr>consoleErrors := consoleErrors st1 @ [error]\<rparr>
                     in if qualityMode st = HQ then
                          (case localRetry w of
                             Inr dataUrl \<Rightarrow>
                               alert hqNotice (handleClear (st3\<lparr>lineArtSrc := Some dataUrl\<rparr>))
                           | Inl _ \<Rightarrow> alert failedNotice st3)
                        else alert failedNotice st3)
          in st2\<lparr>isConverting := False\<rparr>)"

section \<open>The resize computation of convertToLineArt\<close>

text \<open>
  Lines 186 to 193 of \<^verbatim>\<open>convertToLineArt\<close>. \<^verbatim>\<open>naturalWidth\<close> and \<^verbatim>\<open>naturalHeight\<close> are
  non-negative integers and \<^verbatim>\<open>maxDim\<close> is an integer option; integers of this size are
  doubles, and comparing them and taking their maximum is exact.
  \<^verbatim>\<open>scale = maxDim / Math.max(width, height)\<close> is the quotient rounded to the nearest double,
  and \<^verbatim>\<open>width * scale\<close> is the product rounded again, before \<^verbatim>\<open>Math.floor\<close>.
\<close>

definition scaledDimensions :: "nat \<Rightarrow> nat \<Rightarrow> nat \<Rightarrow> int \<times> int" where
  "scaledDimensions naturalWidth naturalHeight maxDim =
     (let width = naturalWidth; height = naturalHeight
      in if width > maxDim \<or> height > maxDim then
           let scale = fl (of_nat maxDim / of_nat (max width height))
           in (\<lfloor>fl (of_nat width * scale)\<rfloor>, \<lfloor>fl (of_nat height * scale)\<rfloor>)
         else (int width, int height))"

section \<open>Positions, windows and invariants used in the statements\<close>

text \<open>The index triples \<open>(y, x, c)\<close> that the blur and dilation loops run through, in order.\<close>

definition interior :: "nat \<Rightarrow> nat \<Rightarrow> (nat \<times> nat \<times> nat) list" where
  "interior width height = List.product [1..<height - 1] (List.product [1..<width - 1] [0, 1, 2])"

text \<open>Channel \<open>c\<close> of the pixel in column \<open>x\<close> and row \<open>y\<close> of a buffer \<open>width\<close> pixels
  wide.\<close>

definition channel :: "byte list \<Rightarrow> nat \<Rightarrow> nat \<Rightarrow> nat \<Rightarrow> nat \<Rightarrow> byte" where
  "channel data width x y c = data ! ((y * width + x) * 4 + c)"

text \<open>The nine positions of the 3x3 neighbourhood of an interior pixel \<open>(x, y)\<close>, row by
  row.\<close>

definition window :: "nat \<Rightarrow> nat \<Rightarrow> (nat \<times> nat) list" where
  "window x y = concat (map (\<lambda>j. map (\<lambda>i. (x + i - 1, y + j - 1)) [0, 1, 2]) [0, 1, 2])"

text \<open>The nine samples of channel \<open>c\<close> in the neighbourhood of \<open>(x, y)\<close>.\<close>

definition samples :: "byte list \<Rightarrow> nat \<Rightarrow> nat \<Rightarrow> nat \<Rightarrow> nat \<Rightarrow> byte list" where
  "samples data width x y c = map (\<lambda>(x', y'). channel data width x' y' c) (window x y)"

text \<open>A pixel position of the outermost ring, and one inside it.\<close>

definition isInterior :: "nat \<Rightarrow> nat \<Rightarrow> nat \<Rightarrow> nat \<Rightarrow> bool" where
  "isInterior width height x y = (0 < x \<and> x < width - 1 \<and> 0 < y \<and> y < height - 1)"

definition isBorder :: "nat \<Rightarrow> nat \<Rightarrow> nat \<Rightarrow> nat \<Rightarrow> bool" where
  "isBorder width height x y =
     (x < width \<and> y < height \<and> (x = 0 \<or> x = width - 1 \<or> y = 0 \<or> y = height - 1))"

text \<open>A buffer of whole pixels, each pure black or pure white and fully opaque.\<close>

definition pureBW :: "byte list \<Rightarrow> bool" where
  "pureBW data =
     (length data mod 4 = 0 \<and> (\<forall>i<length data div 4. rgba data i = black \<or> rgba data i = white))"

text \<open>A 3x3 line drawing with one black pixel in the top right corner.\<close>

definition cornerImage :: "byte list" where
  "cornerImage =
     [255, 255, 255, 255,  255, 255, 255, 255,  0, 0, 0, 255,
      255, 255, 255, 255,  255, 255, 255, 255,  255, 255, 255, 255,
      255, 255, 255, 255,  255, 255, 255, 255,  255, 255, 255, 255]"

text \<open>The unweighted mean of a list of samples.\<close>

definition mean :: "byte list \<Rightarrow> real" where
  "mean vs = of_int (sum_list (map uint vs)) / of_nat (length vs)"

text \<open>A 3x3 colour image.\<close>

definition colourImage :: "byte list" where
  "colourImage =
     [10, 20, 30, 255,     40, 50, 60, 255,     70, 80, 90, 255,
      1, 2, 3, 255,        4, 5, 6, 255,        7, 8, 9, 255,
      100, 110, 120, 255,  130, 140, 150, 255,  160, 170, 180, 200]"

text \<open>Two grey 3x3 images (red, green and blue equal in every pixel, fully opaque): one with
  the red channel of the image above, and one whose two gradients at the centre are 30 and
  40.\<close>

definition greyImage :: "byte list" where
  "greyImage =
     [10, 10, 10, 255,     40, 40, 40, 255,     70, 70, 70, 255,
      1, 1, 1, 255,        4, 4, 4, 255,        7, 7, 7, 255,
      100, 100, 100, 255,  130, 130, 130, 255,  160, 160, 160, 255]"

definition rampImage :: "byte list" where
  "rampImage =
     [0, 0, 0, 255,  0, 0, 0, 255,  0, 0, 0, 255,
      0, 0, 0, 255,  0, 0, 0, 255,  0, 0, 0, 255,
      0, 0, 0, 255,  5, 5, 5, 255,  30, 30, 30, 255]"

text \<open>The two 3x3 kernels of the edge detector as the specification writes them, and the
  convolution of the red channel with a kernel at an interior pixel \<open>(x, y)\<close>.\<close>

definition kernelX :: "int list list" where
  "kernelX = [[-1, 0, 1], [-2, 0, 2], [-1, 0, 1]]"

definition kernelY :: "int list list" where
  "kernelY = [[-1, -2, -1], [0, 0, 0], [1, 2, 1]]"

definition convolve :: "int list list \<Rightarrow> byte list \<Rightarrow> nat \<Rightarrow> nat \<Rightarrow> nat \<Rightarrow> int" where
  "convolve K data width x y =
     (\<Sum>j<3. \<Sum>i<3. K ! j ! i * uint (channel data width (x + i - 1) (y + j - 1) 0))"

text \<open>The index pairs \<open>(y, x)\<close> that the loops of the edge detector run through.\<close>

definition interiorPixels :: "nat \<Rightarrow> nat \<Rightarrow> (nat \<times> nat) list" where
  "interiorPixels width height = List.product [1..<height - 1] [1..<width - 1]"

text \<open>An editor showing a line drawing, with a file chosen and the high-quality mode on; a
  world in which the server cannot be reached, and one in which the server answers with an
  error and the local conversion fails as well.\<close>

definition exampleEditor :: editor where
  "exampleEditor =
     \<lparr>lineArtSrc = Some ''data:old'', selectedFile = Some ''photo.png'', isConverting = False,
      qualityMode = HQ, apiAvailable = Some True, canvasPresent = True,
      strokes = [''stroke''], drawingData = None, alerts = [], consoleErrors = []\<rparr>"

definition offlineWorld :: world where
  "offlineWorld =
     \<lparr>apiBase64 = Inr ''data:photo'', apiFetch = Inl (Thrown ''Failed to fetch''),
      localFirst = Inr ''data:quick'', localRetry = Inr ''data:quick''\<rparr>"

definition brokenWorld :: world where
  "brokenWorld =
     \<lparr>apiBase64 = Inr ''data:photo'',
      apiFetch = Inr \<lparr>ok = False, status = 500, body = Inr \<lparr>detail = None, image = None\<rparr>\<rparr>,
      localFirst = Inl (Thrown ''decode''), localRetry = Inl (Thrown ''decode'')\<rparr>"

section \<open>Loops that store into an array\<close>

lemma fold_store_length:
  "length (fold (\<lambda>a d. d[pos a := val a]) as d) = length d"
  by (induction as arbitrary: d) simp_all

lemma fold_store_other:
  "j \<notin> pos ` set as \<Longrightarrow> fold (\<lambda>a d. d[pos a := val a]) as d ! j = d ! j"
  by (induction as arbitrary: d) simp_all

lemma fold_store_hit:
  assumes "inj_on pos (set as)" "a \<in> set as" "pos a < length d"
  shows "fold (\<lambda>a d. d[pos a := val a]) as d ! pos a = val a"
  using assms
proof (induction as arbitrary: d rule: rev_induct)
  case Nil
  then show ?case by simp
next
  case (snoc b bs)
  show ?case
  proof (cases "a = b")
    case True
    then show ?thesis
      using snoc.prems(3) by (simp add: fold_store_length)
  next
    case False
    with snoc.prems have a: "a \<in> set bs" and ne: "pos b \<noteq> pos a"
      by (auto simp: inj_on_def)
    from snoc.prems(1) have "inj_on pos (set bs)"
      by (auto simp: inj_on_def)
    from snoc.IH[OF this a snoc.prems(3)] ne show ?thesis
      by simp
  qed
qed

lemma fold_fold_product:
  "fold (\<lambda>y. fold (g y) xs) ys d = fold (\<lambda>(y, x). g y x) (List.product ys xs) d"
  by (induction ys arbitrary: d) (simp_all add: fold_map comp_def)

section \<open>Properties of the rounding and of the resize\<close>

lemma bitlen_powi_bounds:
  assumes "0 < a"
  shows "(2::rat) powi (bitlen a - 1) \<le> of_int a" "of_int a < (2::rat) powi bitlen a"
proof -
  from assms have l: "1 \<le> bitlen a" by (simp add: bitlen_alt_def)
  from bitlen_bounds[OF assms] have b: "2 ^ nat (bitlen a - 1) \<le> a" "a < 2 ^ nat (bitlen a)"
    by simp_all
  from b(1) have "(of_int (2 ^ nat (bitlen a - 1)) :: rat) \<le> of_int a"
    by (simp only: of_int_le_iff)
  then show "(2::rat) powi (bitlen a - 1) \<le> of_int a"
    using l by (simp add: power_int_nonneg_exp)
  from b(2) have "(of_int a :: rat) < of_int (2 ^ nat (bitlen a))"
    by (simp only: of_int_less_iff)
  then show "of_int a < (2::rat) powi bitlen a"
    using l by (simp add: power_int_nonneg_exp)
qed

lemma binade_bounds:
  assumes "0 < q"
  shows "2 powi binade q \<le> q" "q < 2 powi (binade q + 1)"
proof -
  obtain a b where ab: "quotient_of q = (a, b)" by (cases "quotient_of q")
  then have b: "0 < b" and q: "q = of_int a / of_int b"
    by (simp_all add: quotient_of_denom_pos quotient_of_div)
  from assms b q have a: "0 < a" by (simp add: zero_less_divide_iff)
  define d where "d = bitlen a - bitlen b"
  note A = bitlen_powi_bounds[OF a]
  note B = bitlen_powi_bounds[OF b]
  have bpos: "(0::rat) < of_int b" using b by simp
  have p: "(0::rat) < 2 powi k" for k by simp
  have up: "q < 2 powi (d + 1)"
  proof -
    have "q * of_int b = of_int a" using bpos by (simp add: q)
    also have "\<dots> < 2 powi bitlen a" by (rule A(2))
    also have "\<dots> = 2 powi (d + 1) * 2 powi (bitlen b - 1)"
      by (simp add: d_def flip: power_int_add)
    also have "\<dots> \<le> 2 powi (d + 1) * of_int b"
      using B(1) by (intro mult_left_mono) simp_all
    finally show ?thesis using bpos by simp
  qed
  have low: "2 powi (d - 1) < q"
  proof -
    have "(2::rat) powi (d - 1) * of_int b < 2 powi (d - 1) * 2 powi bitlen b"
      using B(2) by (intro mult_strict_left_mono) simp_all
    also have "\<dots> = 2 powi (bitlen a - 1)"
      by (simp add: d_def flip: power_int_add)
    also have "\<dots> \<le> of_int a" by (rule A(1))
    also have "\<dots> = q * of_int b" using bpos by (simp add: q)
    finally show ?thesis using bpos by simp
  qed
  have e: "binade q = (if 2 powi d \<le> q then d else d - 1)"
    by (simp add: binade_def ab d_def Let_def)
  show "2 powi binade q \<le> q" using low by (simp add: e)
  show "q < 2 powi (binade q + 1)" using up by (auto simp: e)
qed

lemma binade_unique:
  assumes "0 < q" "2 powi e \<le> q" "q < 2 powi (e + 1)"
  shows "binade q = e"
proof -
  note b = binade_bounds[OF assms(1)]
  have "(2::rat) powi e < 2 powi (binade q + 1)" using assms(2) b(2) by simp
  then have 1: "e < binade q + 1"
    using power_int_increasing[of "binade q + 1" e "2::rat"] by (cases "e < binade q + 1") auto
  have "(2::rat) powi binade q < 2 powi (e + 1)" using assms(3) b(1) by simp
  then have 2: "binade q < e + 1"
    using power_int_increasing[of "e + 1" "binade q" "2::rat"] by (cases "binade q < e + 1") auto
  from 1 2 show ?thesis by simp
qed

lemma roundEven_unique:
  assumes "\<bar>x - of_int n\<bar> < 1 / 2"
  shows "roundEven x = n"
proof -
  from assms have b: "of_int n - 1 / 2 < x" "x < of_int n + 1 / 2" by linarith+
  have "\<lfloor>x\<rfloor> = n \<or> \<lfloor>x\<rfloor> = n - 1"
  proof -
    have "of_int (n - 1) \<le> x" using b(1) by simp
    then have "n - 1 \<le> \<lfloor>x\<rfloor>" by (simp only: le_floor_iff)
    moreover have "x < of_int (n + 1)" using b(2) by simp
    then have "\<lfloor>x\<rfloor> < n + 1" by (simp only: floor_less_iff)
    ultimately show ?thesis by linarith
  qed
  then show ?thesis
  proof
    assume f: "\<lfloor>x\<rfloor> = n"
    with b(2) show ?thesis by (simp add: roundEven_def Let_def)
  next
    assume f: "\<lfloor>x\<rfloor> = n - 1"
    with b(1) show ?thesis by (simp add: roundEven_def Let_def)
  qed
qed

lemma roundEven_error: "\<bar>of_int (roundEven x) - x\<bar> \<le> 1 / 2"
proof -
  have "of_int \<lfloor>x\<rfloor> \<le> x" "x < of_int \<lfloor>x\<rfloor> + 1" by linarith+
  then show ?thesis
    by (auto simp: roundEven_def Let_def abs_le_iff)
qed

lemma fl_positive:
  assumes "0 < q"
  shows "fl q = of_int (roundEven (q / 2 powi (binade q - 52))) * 2 powi (binade q - 52)"
  using assms by (simp add: fl_def Let_def)

lemma fl_eqI:
  assumes "0 < q" "2 powi e \<le> q" "q < 2 powi (e + 1)"
    "\<bar>q / 2 powi (e - 52) - of_int n\<bar> < 1 / 2"
  shows "fl q = of_int n * 2 powi (e - 52)"
  unfolding fl_positive[OF assms(1)] binade_unique[OF assms(1-3)] roundEven_unique[OF assms(4)] ..

lemma fl_error:
  assumes "0 < q"
  shows "\<bar>fl q - q\<bar> \<le> q / 2 ^ 53"
proof -
  define u :: rat where "u = 2 powi (binade q - 52)"
  have u: "0 < u" by (simp add: u_def)
  have "fl q - q = (of_int (roundEven (q / u)) - q / u) * u"
    using u by (simp add: fl_positive[OF assms] u_def[symmetric] field_simps)
  then have "\<bar>fl q - q\<bar> = \<bar>of_int (roundEven (q / u)) - q / u\<bar> * u"
    using u by (simp add: abs_mult)
  also have "\<dots> \<le> 1 / 2 * u"
    using u roundEven_error[of "q / u"] by (intro mult_right_mono) simp_all
  also have "\<dots> = 2 powi binade q / 2 ^ 53"
    by (simp add: u_def power_int_diff)
  also have "\<dots> \<le> q / 2 ^ 53"
    using binade_bounds(1)[OF assms] by (simp add: divide_right_mono)
  finally show ?thesis .
qed


lemma fl_600_1109: "fl (600 / 1109) = 4873146576054639 * 2 powi (- 1 - 52)"
  using fl_eqI[of "600 / 1109" "- 1" 4873146576054639] by simp

lemma fl_1109_scale: "fl (1109 * (4873146576054639 * 2 powi (- 1 - 52))) = 5277655813324799 * 2 powi (9 - 52)"
  using fl_eqI[of "1109 * (4873146576054639 * 2 powi (- 1 - 52))" 9 5277655813324799] by simp

lemma floor_599: "\<lfloor>5277655813324799 * (2::rat) powi (9 - 52)\<rfloor> = 599"
  by (simp add: floor_eq_iff)

lemma fl_1200_3000: "fl (1200 / 3000) = 7205759403792794 * 2 powi (- 2 - 52)"
  using fl_eqI[of "1200 / 3000" "- 2" 7205759403792794] by simp

lemma fl_3000_scale: "fl (3000 * (7205759403792794 * 2 powi (- 2 - 52))) = 1200"
  using fl_eqI[of "3000 * (7205759403792794 * 2 powi (- 2 - 52))" 10 5277655813324800] by simp

lemma fl_2000_scale: "fl (2000 * (7205759403792794 * 2 powi (- 2 - 52))) = 800"
  using fl_eqI[of "2000 * (7205759403792794 * 2 powi (- 2 - 52))" 9 7036874417766400] by simp

lemma scaledDimensions_scaled:
  assumes "maxDim < width \<or> maxDim < height"
  shows "scaledDimensions width height maxDim =
     (\<lfloor>fl (of_nat width * fl (of_nat maxDim / of_nat (max width height)))\<rfloor>,
      \<lfloor>fl (of_nat height * fl (of_nat maxDim / of_nat (max width height)))\<rfloor>)"
  using assms by (simp add: scaledDimensions_def Let_def)

lemma scaledDimensions_unscaled:
  assumes "width \<le> maxDim" "height \<le> maxDim"
  shows "scaledDimensions width height maxDim = (int width, int height)"
  using assms by (simp add: scaledDimensions_def Let_def)

lemma resize_1109: "scaledDimensions 1109 1109 600 = (599, 599)"
proof -
  have c: "(600::nat) < 1109 \<or> (600::nat) < 1109" by simp
  have a: "(of_nat 600 :: rat) / of_nat (max 1109 1109) = 600 / 1109" by simp
  have b: "(of_nat 1109 :: rat) = 1109" by simp
  show ?thesis
    unfolding scaledDimensions_scaled[OF c] a b fl_600_1109 fl_1109_scale floor_599 ..
qed

lemma resize_3000: "scaledDimensions 3000 2000 1200 = (1200, 800)"
proof -
  have c: "(1200::nat) < 3000 \<or> (1200::nat) < 2000" by simp
  have a: "(of_nat 1200 :: rat) / of_nat (max 3000 2000) = 1200 / 3000" by simp
  have b: "(of_nat 3000 :: rat) = 3000" "(of_nat 2000 :: rat) = 2000" by simp_all
  have f: "\<lfloor>1200 :: rat\<rfloor> = 1200" "\<lfloor>800 :: rat\<rfloor> = 800" by simp_all
  show ?thesis
    unfolding scaledDimensions_scaled[OF c] a b fl_1200_3000 fl_3000_scale fl_2000_scale f ..
qed


lemma scaled_dimension_error:
  fixes d m M :: nat
  assumes "0 < d" "0 < m" "0 < M"
  defines "E \<equiv> (of_nat (d * m) / of_nat M :: rat)"
  shows "\<bar>fl (of_nat d * fl (of_nat m / of_nat M)) - E\<bar> \<le> 3 * E / 2 ^ 53"
proof -
  define u :: rat where "u = 1 / 2 ^ 53"
  define q :: rat where "q = of_nat m / of_nat M"
  define s where "s = fl q"
  define p where "p = of_nat d * s"
  define t where "t = fl p"
  have u: "0 < u" "u \<le> 1" by (simp_all add: u_def)
  have q: "0 < q" using assms(2,3) by (simp add: q_def)
  have dpos: "(0::rat) < of_nat d" using assms(1) by simp
  have E: "E = of_nat d * q" by (simp add: E_def q_def)
  have Epos: "0 < E" using dpos q by (simp add: E)
  have e1: "\<bar>s - q\<bar> \<le> q * u"
    using fl_error[OF q] by (simp add: s_def u_def)
  have "\<bar>p - E\<bar> = of_nat d * \<bar>s - q\<bar>"
    by (simp add: p_def E abs_mult flip: right_diff_distrib)
  also have "\<dots> \<le> of_nat d * (q * u)"
    using e1 dpos by (intro mult_left_mono) simp_all
  finally have e2: "\<bar>p - E\<bar> \<le> E * u" by (simp add: E mult.assoc)
  have "E * u < E * 1" using Epos u by (intro mult_strict_left_mono) (simp_all add: u_def)
  with e2 have ppos: "0 < p" by linarith
  have e3: "\<bar>t - p\<bar> \<le> p * u"
    using fl_error[OF ppos] by (simp add: t_def u_def)
  have "p \<le> E + E * u" using e2 by linarith
  then have "p * u \<le> (E + E * u) * u" using u(1) by (intro mult_right_mono) simp_all
  also have "\<dots> = E * u + (E * u) * u" by (simp add: algebra_simps)
  also have "(E * u) * u \<le> (E * u) * 1"
    using Epos u by (intro mult_left_mono) simp_all
  finally have "p * u \<le> 2 * (E * u)" by simp
  with e2 e3 have "\<bar>t - E\<bar> \<le> 3 * (E * u)" by linarith
  then show ?thesis
    by (simp add: t_def p_def s_def q_def u_def)
qed

lemma scaled_dimension_bounds:
  fixes d m M :: nat
  assumes "0 < d" "0 < m" "m < M" "d \<le> M" "M < 2 ^ 25"
  shows "int (d * m div M) - 1 \<le> \<lfloor>fl (of_nat d * fl (of_nat m / of_nat M))\<rfloor>"
    and "\<lfloor>fl (of_nat d * fl (of_nat m / of_nat M))\<rfloor> \<le> int (d * m div M)"
proof -
  define E :: rat where "E = of_nat (d * m) / of_nat M"
  define t where "t = fl (of_nat d * fl (of_nat m / of_nat M))"
  define k where "k = d * m div M"
  define r where "r = d * m mod M"
  from assms have M: "0 < M" by simp
  have Mr: "(0::rat) < of_nat M" using M by simp
  have err: "\<bar>t - E\<bar> \<le> 3 * E / 2 ^ 53"
    unfolding t_def E_def by (rule scaled_dimension_error[OF assms(1,2) M])
  have dm: "d * m = k * M + r" and r: "r < M" using M by (simp_all add: k_def r_def)
  have Ek: "E = of_nat k + of_nat r / of_nat M"
    using Mr by (simp add: E_def dm add_divide_distrib)
  have "d * m < 2 ^ 25 * 2 ^ 25"
    using assms by (intro mult_strict_mono') simp_all
  then have dm50: "d * m < 2 ^ 50" by simp
  then have "(of_nat (d * m) :: rat) < of_nat (2 ^ 50)" by (simp only: of_nat_less_iff)
  then have EM: "E * of_nat M < 2 ^ 50" using Mr by (simp add: E_def)
  have Epos: "0 \<le> E" by (simp add: E_def)
  have eps_M: "3 * E / 2 ^ 53 * of_nat M < 1"
  proof -
    have "3 * E / 2 ^ 53 * of_nat M = 3 * (E * of_nat M) / 2 ^ 53" by simp
    also have "\<dots> < 3 * 2 ^ 50 / 2 ^ 53" using EM by (simp add: divide_strict_right_mono)
    also have "\<dots> < 1" by simp
    finally show ?thesis .
  qed
  then have eps1: "3 * E / 2 ^ 53 < 1 / of_nat M"
    using Mr by (simp add: pos_less_divide_eq)
  have "1 \<le> (of_nat M :: rat)" using M by simp
  then have "1 / (of_nat M :: rat) \<le> 1" by simp
  with eps1 have eps2: "3 * E / 2 ^ 53 < 1" by linarith
  have "of_nat r \<le> (of_nat M :: rat) - 1"
  proof -
    from r have "r + 1 \<le> M" by simp
    then have "(of_nat (r + 1) :: rat) \<le> of_nat M" by (simp only: of_nat_le_iff)
    then show ?thesis by simp
  qed
  then have "of_nat r / (of_nat M :: rat) \<le> (of_nat M - 1) / of_nat M"
    using Mr by (simp add: divide_right_mono)
  also have "\<dots> = 1 - 1 / of_nat M" using Mr by (simp add: diff_divide_distrib)
  finally have frac: "of_nat r / (of_nat M :: rat) \<le> 1 - 1 / of_nat M" .
  have "t < of_nat k + 1" using err eps1 Ek frac by linarith
  then have "t < of_int (int k + 1)" by simp
  then have "\<lfloor>t\<rfloor> < int k + 1" by (simp only: floor_less_iff)
  then show "\<lfloor>fl (of_nat d * fl (of_nat m / of_nat M))\<rfloor> \<le> int (d * m div M)"
    by (simp add: t_def k_def)
  have "0 \<le> of_nat r / (of_nat M :: rat)" by simp
  with err eps2 Ek have "of_nat k - 1 \<le> t" by linarith
  then have "of_int (int k - 1) \<le> t" by simp
  then have "int k - 1 \<le> \<lfloor>t\<rfloor>" by (simp only: le_floor_iff)
  then show "int (d * m div M) - 1 \<le> \<lfloor>fl (of_nat d * fl (of_nat m / of_nat M))\<rfloor>"
    by (simp add: t_def k_def)
qed


lemma scaled_quotient_le:
  fixes d m M :: nat
  assumes "0 < M" "d \<le> M" "m \<le> M"
  shows "d * m div M \<le> m" "d * m div M \<le> d"
proof -
  have "d * m div M \<le> M * m div M" using assms(2) by (intro div_le_mono mult_le_mono1)
  then show "d * m div M \<le> m" using assms(1) by simp
  have "d * m div M \<le> d * M div M" using assms(3) by (intro div_le_mono mult_le_mono2)
  then show "d * m div M \<le> d" using assms(1) by simp
qed

section \<open>Rounding: symmetry, monotonicity and the numbers it fixes\<close>

lemma fl_nearest: "fl = nearest 52"
  by (rule ext) (simp add: fl_def nearest_def)

lemma fl32_nearest: "fl32 = nearest 23"
  by (rule ext) (simp add: fl32_def nearest_def)

lemma roundEven_of_int: "roundEven (of_int n) = n"
  by (simp add: roundEven_def)

lemma roundEven_mono:
  assumes "x \<le> y"
  shows "roundEven x \<le> roundEven y"
proof (cases "\<lfloor>x\<rfloor> = \<lfloor>y\<rfloor>")
  case True
  with assms show ?thesis by (auto simp: roundEven_def Let_def)
next
  case False
  with assms have "\<lfloor>x\<rfloor> + 1 \<le> \<lfloor>y\<rfloor>" using floor_mono[OF assms] by linarith
  moreover have "roundEven x \<le> \<lfloor>x\<rfloor> + 1" by (simp add: roundEven_def Let_def)
  moreover have "\<lfloor>y\<rfloor> \<le> roundEven y" by (simp add: roundEven_def Let_def)
  ultimately show ?thesis by linarith
qed

lemma roundEven_minus: "roundEven (- x) = - roundEven x"
proof (cases "x = of_int \<lfloor>x\<rfloor>")
  case True
  then obtain n where "x = of_int n" ..
  then have "- x = of_int (- n)" by simp
  then show ?thesis using \<open>x = of_int n\<close> by (simp only: roundEven_of_int)
next
  case False
  then have f: "\<lfloor>- x\<rfloor> = - \<lfloor>x\<rfloor> - 1"
    by (simp add: floor_minus ceiling_altdef)
  have b: "of_int \<lfloor>x\<rfloor> < x" "x < of_int \<lfloor>x\<rfloor> + 1" using False by linarith+
  show ?thesis
    unfolding roundEven_def Let_def f using b by (auto simp: algebra_simps)
qed

lemma binade_abs_minus: "binade \<bar>- q\<bar> = binade \<bar>q\<bar>"
  by simp

lemma nearest_minus: "nearest p (- q) = - nearest p q"
  by (simp add: nearest_def Let_def roundEven_minus)

lemma nearest_positive:
  assumes "0 < q"
  shows "nearest p q = of_int (roundEven (q / 2 powi (binade q - p))) * 2 powi (binade q - p)"
  using assms by (simp add: nearest_def Let_def)

lemma nearest_eqI:
  assumes "0 < q" "2 powi e \<le> q" "q < 2 powi (e + 1)"
    "\<bar>q / 2 powi (e - p) - of_int n\<bar> < 1 / 2"
  shows "nearest p q = of_int n * 2 powi (e - p)"
  unfolding nearest_positive[OF assms(1)] binade_unique[OF assms(1-3)] roundEven_unique[OF assms(4)] ..

lemma nearest_error:
  assumes "0 < q"
  shows "\<bar>nearest p q - q\<bar> \<le> q / 2 powi (p + 1)"
proof -
  define u :: rat where "u = 2 powi (binade q - p)"
  have u: "0 < u" by (simp add: u_def)
  have "nearest p q - q = (of_int (roundEven (q / u)) - q / u) * u"
    using u by (simp add: nearest_positive[OF assms] u_def[symmetric] field_simps)
  then have "\<bar>nearest p q - q\<bar> = \<bar>of_int (roundEven (q / u)) - q / u\<bar> * u"
    using u by (simp add: abs_mult)
  also have "\<dots> \<le> 1 / 2 * u"
    using u roundEven_error[of "q / u"] by (intro mult_right_mono) simp_all
  also have "\<dots> = 2 powi binade q / 2 powi (p + 1)"
    by (simp add: u_def power_int_diff power_int_add)
  also have "\<dots> \<le> q / 2 powi (p + 1)"
    using binade_bounds(1)[OF assms] by (simp add: divide_right_mono)
  finally show ?thesis .
qed

lemma powi_of_int:
  assumes "0 \<le> p"
  shows "(2::rat) powi p = of_int (2 ^ nat p)"
  using assms by (simp add: power_int_nonneg_exp)

lemma nearest_significand:
  assumes "0 < q" "0 \<le> p"
  shows "2 ^ nat p \<le> roundEven (q / 2 powi (binade q - p))"
    and "roundEven (q / 2 powi (binade q - p)) \<le> 2 ^ nat (p + 1)"
proof -
  define u :: rat where "u = 2 powi (binade q - p)"
  have u: "0 < u" by (simp add: u_def)
  have lo: "2 powi binade q = 2 powi p * u"
    by (simp add: u_def power_int_diff)
  have hi: "2 powi (binade q + 1) = 2 powi (p + 1) * u"
    by (simp add: u_def power_int_diff power_int_add)
  from binade_bounds(1)[OF assms(1)] have "2 powi p \<le> q / u"
    unfolding lo using u by (simp add: pos_le_divide_eq)
  then have "roundEven (2 powi p) \<le> roundEven (q / u)" by (rule roundEven_mono)
  then show "2 ^ nat p \<le> roundEven (q / 2 powi (binade q - p))"
    unfolding powi_of_int[OF assms(2)] roundEven_of_int u_def .
  from binade_bounds(2)[OF assms(1)] have "q / u \<le> 2 powi (p + 1)"
    unfolding hi using u by (simp add: pos_divide_le_eq)
  then have "roundEven (q / u) \<le> roundEven (2 powi (p + 1))" by (rule roundEven_mono)
  moreover have "0 \<le> p + 1" using assms(2) by simp
  ultimately show "roundEven (q / 2 powi (binade q - p)) \<le> 2 ^ nat (p + 1)"
    unfolding powi_of_int[OF \<open>0 \<le> p + 1\<close>] roundEven_of_int u_def by simp
qed

lemma nearest_lower:
  assumes "0 < q" "0 \<le> p"
  shows "2 powi binade q \<le> nearest p q"
proof -
  have "(of_int (2 ^ nat p) :: rat) \<le> of_int (roundEven (q / 2 powi (binade q - p)))"
    using nearest_significand(1)[OF assms] by (simp only: of_int_le_iff)
  then have "2 powi p * 2 powi (binade q - p) \<le> nearest p q"
    unfolding nearest_positive[OF assms(1)] powi_of_int[OF assms(2)]
    by (intro mult_right_mono) simp_all
  then show ?thesis by (simp add: power_int_diff)
qed

lemma nearest_upper:
  assumes "0 < q" "0 \<le> p"
  shows "nearest p q \<le> 2 powi (binade q + 1)"
proof -
  have p1: "0 \<le> p + 1" using assms(2) by simp
  have "(of_int (roundEven (q / 2 powi (binade q - p))) :: rat) \<le> of_int (2 ^ nat (p + 1))"
    using nearest_significand(2)[OF assms] by (simp only: of_int_le_iff)
  then have "nearest p q \<le> 2 powi (p + 1) * 2 powi (binade q - p)"
    unfolding nearest_positive[OF assms(1)] powi_of_int[OF p1]
    by (intro mult_right_mono) simp_all
  then show ?thesis by (simp add: power_int_diff power_int_add)
qed

lemma nearest_pos:
  assumes "0 < q" "0 \<le> p"
  shows "0 < nearest p q"
proof -
  have "(0::rat) < 2 powi binade q" by simp
  with nearest_lower[OF assms] show ?thesis by linarith
qed

lemma binade_mono:
  assumes "0 < a" "a \<le> b"
  shows "binade a \<le> binade b"
proof -
  from assms have b: "0 < b" by simp
  have "(2::rat) powi binade a < 2 powi (binade b + 1)"
    using binade_bounds(1)[OF assms(1)] binade_bounds(2)[OF b] assms(2) by linarith
  then have "binade a < binade b + 1"
    using power_int_increasing[of "binade b + 1" "binade a" "2::rat"]
    by (cases "binade a < binade b + 1") auto
  then show ?thesis by simp
qed

lemma nearest_mono_pos:
  assumes "0 < a" "a \<le> b" "0 \<le> p"
  shows "nearest p a \<le> nearest p b"
proof (cases "binade a = binade b")
  case True
  from assms have b: "0 < b" by simp
  have "a / 2 powi (binade b - p) \<le> b / 2 powi (binade b - p)"
    using assms(2) by (simp add: divide_right_mono)
  then have "roundEven (a / 2 powi (binade b - p)) \<le> roundEven (b / 2 powi (binade b - p))"
    by (rule roundEven_mono)
  then have "(of_int (roundEven (a / 2 powi (binade b - p))) :: rat)
             \<le> of_int (roundEven (b / 2 powi (binade b - p)))"
    by (simp only: of_int_le_iff)
  then show ?thesis
    unfolding nearest_positive[OF assms(1)] nearest_positive[OF b] True
    by (intro mult_right_mono) simp_all
next
  case False
  from assms have b: "0 < b" by simp
  from False binade_mono[OF assms(1,2)] have "binade a + 1 \<le> binade b" by simp
  then have "(2::rat) powi (binade a + 1) \<le> 2 powi binade b"
    by (intro power_int_increasing) simp_all
  with nearest_upper[OF assms(1,3)] nearest_lower[OF b assms(3)] show ?thesis by linarith
qed

lemma nearest_zero: "nearest p 0 = 0"
  by (simp add: nearest_def)

lemma nearest_mono:
  assumes "a \<le> b" "0 \<le> p"
  shows "nearest p a \<le> nearest p b"
proof -
  consider "0 < a" | "a = 0" "b = 0" | "a = 0" "0 < b" | "a < 0" "0 \<le> b" | "a < 0" "b < 0"
    using assms(1) by linarith
  then show ?thesis
  proof cases
    case 1
    then show ?thesis using assms by (intro nearest_mono_pos)
  next
    case 2
    then show ?thesis by simp
  next
    case 3
    then show ?thesis using nearest_pos[of b p] assms(2) by (simp add: nearest_zero)
  next
    case 4
    then have "0 < nearest p (- a)" using assms(2) by (intro nearest_pos) simp_all
    then have "nearest p a < 0" by (simp add: nearest_minus)
    moreover have "0 \<le> nearest p b"
      using 4(2) nearest_pos[of b p] assms(2) by (cases "b = 0") (simp_all add: nearest_zero)
    ultimately show ?thesis by linarith
  next
    case 5
    then have "nearest p (- b) \<le> nearest p (- a)"
      using assms by (intro nearest_mono_pos) simp_all
    then show ?thesis by (simp add: nearest_minus)
  qed
qed

lemma nearest_fixed_pos:
  assumes "0 < m" "m < 2 ^ nat (p + 1)" "0 \<le> p"
  shows "nearest p (of_int m * 2 powi k) = of_int m * 2 powi k"
proof -
  define q :: rat where "q = of_int m * 2 powi k"
  have q: "0 < q" using assms(1) by (simp add: q_def)
  have p1: "0 \<le> p + 1" using assms(3) by simp
  have "(of_int m :: rat) < of_int (2 ^ nat (p + 1))" using assms(2) by (simp only: of_int_less_iff)
  then have "q < 2 powi (p + 1) * 2 powi k"
    unfolding q_def powi_of_int[OF p1] by (intro mult_strict_right_mono) simp_all
  then have "q < 2 powi (p + 1 + k)" by (simp add: power_int_add)
  with binade_bounds(1)[OF q] have "(2::rat) powi binade q < 2 powi (p + 1 + k)" by linarith
  then have "binade q < p + 1 + k"
    using power_int_increasing[of "p + 1 + k" "binade q" "2::rat"]
    by (cases "binade q < p + 1 + k") auto
  then have j: "0 \<le> k - binade q + p" by simp
  have "q / 2 powi (binade q - p) = of_int m * 2 powi (k - binade q + p)"
    by (simp add: q_def power_int_diff power_int_add)
  also have "\<dots> = of_int (m * 2 ^ nat (k - binade q + p))"
    unfolding powi_of_int[OF j] by simp
  finally have "roundEven (q / 2 powi (binade q - p)) = m * 2 ^ nat (k - binade q + p)"
    by (simp only: roundEven_of_int)
  then have "nearest p q = of_int (m * 2 ^ nat (k - binade q + p)) * 2 powi (binade q - p)"
    unfolding nearest_positive[OF q] by simp
  also have "\<dots> = of_int m * (2 powi (k - binade q + p) * 2 powi (binade q - p))"
    unfolding powi_of_int[OF j] by simp
  also have "\<dots> = q"
    by (simp add: q_def flip: power_int_add)
  finally show ?thesis by (simp add: q_def)
qed

lemma nearest_fixed:
  assumes "\<bar>m\<bar> < 2 ^ nat (p + 1)" "0 \<le> p"
  shows "nearest p (of_int m * 2 powi k) = of_int m * 2 powi k"
proof -
  consider "m = 0" | "0 < m" | "m < 0" by linarith
  then show ?thesis
  proof cases
    case 1
    then show ?thesis by (simp add: nearest_zero)
  next
    case 2
    with assms show ?thesis by (intro nearest_fixed_pos) simp_all
  next
    case 3
    with assms have "nearest p (of_int (- m) * 2 powi k) = of_int (- m) * 2 powi k"
      by (intro nearest_fixed_pos) simp_all
    then have "nearest p (- (of_int m * 2 powi k)) = - (of_int m * 2 powi k)" by simp
    then show ?thesis by (simp only: nearest_minus neg_equal_iff_equal)
  qed
qed

lemma nearest_nearest_pos:
  assumes "0 < q" "0 \<le> p'" "p' < p"
  shows "nearest p (nearest p' q) = nearest p' q"
proof -
  define n where "n = roundEven (q / 2 powi (binade q - p'))"
  have n: "2 ^ nat p' \<le> n" "n \<le> 2 ^ nat (p' + 1)"
    using nearest_significand[OF assms(1,2)] by (simp_all add: n_def)
  have "(2::int) ^ nat (p' + 1) < 2 ^ nat (p + 1)"
    using assms(2,3) by (intro power_strict_increasing) simp_all
  moreover have "(0::int) < 2 ^ nat p'" by simp
  ultimately have "\<bar>n\<bar> < 2 ^ nat (p + 1)" using n by linarith
  moreover have "0 \<le> p" using assms by simp
  ultimately have "nearest p (of_int n * 2 powi (binade q - p')) = of_int n * 2 powi (binade q - p')"
    by (rule nearest_fixed)
  then show ?thesis
    unfolding nearest_positive[OF assms(1), of p'] n_def .
qed

lemma nearest_nearest:
  assumes "0 \<le> p'" "p' < p"
  shows "nearest p (nearest p' q) = nearest p' q"
proof -
  consider "q = 0" | "0 < q" | "q < 0" by linarith
  then show ?thesis
  proof cases
    case 1
    then show ?thesis by (simp add: nearest_zero)
  next
    case 2
    then show ?thesis using assms by (rule nearest_nearest_pos)
  next
    case 3
    then have "nearest p (nearest p' (- q)) = nearest p' (- q)"
      using assms by (intro nearest_nearest_pos) simp_all
    then show ?thesis by (simp add: nearest_minus)
  qed
qed


section \<open>Properties of thresholdEdges\<close>

lemma Max_insert_swap:
  fixes a :: "'a::linorder"
  assumes "finite A"
  shows "Max (insert a (insert v A)) = max v (Max (insert a A))"
proof -
  have "insert a (insert v A) = insert v (insert a A)" by auto
  then show ?thesis using assms by (simp del: Max_insert add: Max_insert[of "insert a A" v])
qed

lemma fl_mono: "a \<le> b \<Longrightarrow> fl a \<le> fl b"
  unfolding fl_nearest by (rule nearest_mono) simp_all

lemma fl_zero: "fl 0 = 0"
  by (simp add: fl_def)

lemma fl_one: "fl 1 = 1"
  using nearest_fixed[of 1 52 0] by (simp add: fl_nearest)

lemma fl_fl32: "fl (fl32 q) = fl32 q"
  unfolding fl_nearest fl32_nearest by (rule nearest_nearest) simp_all

lemma fl32_zero: "fl32 0 = 0"
  by (simp add: fl32_def)

lemma fl32_pos: "0 < q \<Longrightarrow> 0 < fl32 q"
  unfolding fl32_nearest by (rule nearest_pos) simp_all

lemma fl32_nonneg: "0 \<le> q \<Longrightarrow> 0 \<le> fl32 q"
  using fl32_pos[of q] by (cases "q = 0") (simp_all add: fl32_zero)

lemma fl32_mono: "a \<le> b \<Longrightarrow> fl32 a \<le> fl32 b"
  unfolding fl32_nearest by (rule nearest_mono) simp_all

lemma fl32_int:
  assumes "\<bar>m\<bar> < 2 ^ 24"
  shows "fl32 (of_int m) = of_int m"
  using nearest_fixed[of m 23 0] assms by (simp add: fl32_nearest)

lemma maxMag_prefix:
  "fold (maxMagStep ms) [0..<k] acc = Max (insert acc {v. \<exists>i<k. f32_at ms i = Some v})"
proof (induction k)
  case 0
  then show ?case by simp
next
  case (Suc k)
  let ?A = "{v. \<exists>i<k. f32_at ms i = Some v}"
  let ?M = "fold (maxMagStep ms) [0..<k] acc"
  have fin: "finite ?A"
  proof -
    have "?A \<subseteq> (\<lambda>i. the (f32_at ms i)) ` {..<k}" by force
    then show ?thesis by (rule finite_subset) simp
  qed
  have IH: "?M = Max (insert acc ?A)"
    using Suc by simp
  have step: "fold (maxMagStep ms) [0..<Suc k] acc = maxMagStep ms k ?M"
    by simp
  show ?case
  proof (cases "f32_at ms k")
    case None
    then have "{v. \<exists>i<Suc k. f32_at ms i = Some v} = ?A"
      by (auto simp: less_Suc_eq)
    moreover from None have "maxMagStep ms k ?M = ?M"
      by (simp add: maxMagStep_def)
    ultimately show ?thesis using IH step by simp
  next
    case (Some v)
    then have "{v. \<exists>i<Suc k. f32_at ms i = Some v} = insert v ?A"
      by (auto simp: less_Suc_eq)
    moreover from Some have "maxMagStep ms k ?M = max v ?M"
      by (simp add: maxMagStep_def max_def)
    moreover have "Max (insert acc (insert v ?A)) = max v (Max (insert acc ?A))"
      using fin by (rule Max_insert_swap)
    ultimately show ?thesis using IH step by simp
  qed
qed

lemma finite_entries: "finite {v. \<exists>i<k. f32_at ms i = Some v}"
proof -
  have "{v. \<exists>i<k. f32_at ms i = Some v} \<subseteq> (\<lambda>i. the (f32_at ms i)) ` {..<k}" by force
  then show ?thesis by (rule finite_subset) simp
qed

lemma maxMagLoop_eq:
  "maxMagLoop ms = Max (insert 0 {v. \<exists>i<length ms. f32_at ms i = Some v})"
  unfolding maxMagLoop_def by (rule maxMag_prefix)

lemma maxMagLoop_nonneg: "0 \<le> maxMagLoop ms"
  by (simp add: maxMagLoop_eq finite_entries)

lemma maxMagLoop_upper: "i < length ms \<Longrightarrow> f32_at ms i = Some v \<Longrightarrow> v \<le> maxMagLoop ms"
  unfolding maxMagLoop_eq by (intro Max_ge) (auto simp: finite_entries)

lemma maxMagLoop_double: "fl (maxMagLoop ms) = maxMagLoop ms"
proof -
  let ?S = "insert 0 {v. \<exists>i<length ms. f32_at ms i = Some v}"
  have "Max ?S \<in> ?S" by (intro Max_in) (simp_all add: finite_entries)
  then have "maxMagLoop ms = 0 \<or> (\<exists>i<length ms. f32_at ms i = Some (maxMagLoop ms))"
    unfolding maxMagLoop_eq by auto
  then show ?thesis
  proof
    assume "maxMagLoop ms = 0"
    then show ?thesis by (simp add: fl_zero)
  next
    assume "\<exists>i<length ms. f32_at ms i = Some (maxMagLoop ms)"
    then obtain i where "f32_at ms i = Some (maxMagLoop ms)" by blast
    then obtain z where "fl32 z = maxMagLoop ms" by (auto simp: f32_at_def)
    then show ?thesis using fl_fl32[of z] by simp
  qed
qed

lemma cutoff_0: "fl (fl (0 / 255) * m) = 0"
  by (simp add: fl_zero)

lemma cutoff_255: "fl (fl (255 / 255) * maxMagLoop ms) = maxMagLoop ms"
  by (simp add: fl_one maxMagLoop_double)

lemma cutoff_mono:
  assumes "t1 \<le> t2" "0 \<le> m"
  shows "fl (fl (t1 / 255) * m) \<le> fl (fl (t2 / 255) * m)"
proof -
  from assms(1) have "t1 / 255 \<le> t2 / 255" by (simp add: divide_right_mono)
  then have "fl (t1 / 255) \<le> fl (t2 / 255)" by (rule fl_mono)
  then have "fl (t1 / 255) * m \<le> fl (t2 / 255) * m" using assms(2) by (rule mult_right_mono)
  then show ?thesis by (rule fl_mono)
qed

lemma f32_at_map_Some: "i < length vs \<Longrightarrow> f32_at (map Some vs) i = Some (fl32 (vs ! i))"
  by (simp add: f32_at_def)


lemma maxMagLoop_map_Some:
  assumes "vs \<noteq> []" "\<forall>v\<in>set vs. 0 \<le> v"
  shows "maxMagLoop (map Some vs) = Max (fl32 ` set vs)"
proof -
  have s: "{v. \<exists>i<length (map Some vs). f32_at (map Some vs) i = Some v} = fl32 ` set vs"
  proof (intro set_eqI iffI)
    fix v assume "v \<in> {v. \<exists>i<length (map Some vs). f32_at (map Some vs) i = Some v}"
    then obtain i where "i < length vs" "v = fl32 (vs ! i)"
      by (auto simp: f32_at_map_Some)
    then show "v \<in> fl32 ` set vs" by simp
  next
    fix v assume "v \<in> fl32 ` set vs"
    then obtain i where "i < length vs" "v = fl32 (vs ! i)"
      by (auto simp: in_set_conv_nth)
    then show "v \<in> {v. \<exists>i<length (map Some vs). f32_at (map Some vs) i = Some v}"
      by (auto simp: f32_at_map_Some)
  qed
  from assms obtain v where v: "v \<in> set vs" "0 \<le> v" by (cases vs) auto
  then have "0 \<le> fl32 v" by (simp add: fl32_nonneg)
  moreover have "fl32 v \<le> Max (fl32 ` set vs)" using v(1) by simp
  ultimately have "0 \<le> Max (fl32 ` set vs)" by linarith
  then have "Max (insert 0 (fl32 ` set vs)) = Max (fl32 ` set vs)"
    using assms(1) by (simp add: max_def)
  then show ?thesis unfolding maxMagLoop_eq s .
qed

lemma thresholdStep_stores:
  "thresholdStep magnitude nt i =
   fold (\<lambda>c d. d[i * 4 + c := thresholdVal magnitude nt (i, c)]) [0, 1, 2, 3]"
  by (rule ext) (simp add: thresholdStep_def thresholdVal_def Let_def)

lemma thresholdLoop_stores:
  "fold (thresholdStep magnitude nt) is d =
   fold (\<lambda>a d. d[(\<lambda>(i, c). i * 4 + c) a := thresholdVal magnitude nt a])
     (List.product is [0, 1, 2, 3]) d"
  unfolding thresholdStep_stores
  by (simp only: fold_fold_product) (simp add: case_prod_unfold)

lemma inj_channel: "inj_on (\<lambda>(i, c). i * 4 + c) (A \<times> {0, 1, 2, 3::nat})"
  by (auto simp: inj_on_def) presburger+

lemma thresholdLoop_pixel:
  assumes "i < n" "n * 4 \<le> length d"
  shows "rgba (fold (thresholdStep magnitude nt) [0..<n] d) i =
         (edgeColor magnitude nt i, edgeColor magnitude nt i, edgeColor magnitude nt i, 255)"
proof -
  let ?pos = "\<lambda>(i, c). i * 4 + c"
  let ?as = "List.product [0..<n] [0, 1, 2, 3::nat]"
  have inj: "inj_on ?pos (set ?as)"
    using inj_channel[of "{0..<n}"] by simp
  have hit: "fold (\<lambda>a d. d[?pos a := thresholdVal magnitude nt a]) ?as d ! ?pos (i, c)
             = thresholdVal magnitude nt (i, c)" if "c \<in> {0, 1, 2, 3}" for c
    using that assms by (intro fold_store_hit[OF inj]) auto
  show ?thesis
    unfolding rgba_def thresholdLoop_stores
    using hit[of 0] hit[of 1] hit[of 2] hit[of 3]
    by (simp add: thresholdVal_def)
qed

lemma thresholdLoop_length:
  "length (fold (thresholdStep magnitude nt) is d) = length d"
  unfolding thresholdLoop_stores by (rule fold_store_length)

lemma thresholdEdges_pixels:
  assumes "0 < width" "0 < height" "length magnitude = width * height"
  shows "\<exists>out. thresholdEdges magnitude width height threshold = Inr out
           \<and> length out = width * height * 4
           \<and> (\<forall>i<width * height. rgba out i =
                 (if js_gt (f32_at magnitude i) (fl (fl (threshold / 255) * maxMagLoop magnitude))
                  then black else white))"
proof -
  let ?nt = "fl (fl (threshold / 255) * maxMagLoop magnitude)"
  let ?out = "fold (thresholdStep magnitude ?nt) [0..<length magnitude]
                (replicate (width * height * 4) 0)"
  have r: "thresholdEdges magnitude width height threshold = Inr ?out"
    using assms(1,2) by (simp add: thresholdEdges_def newImageData_def Let_def)
  have l: "length ?out = width * height * 4"
    by (simp add: thresholdLoop_length)
  have p: "rgba ?out i = (if js_gt (f32_at magnitude i) ?nt then black else white)"
    if "i < width * height" for i
    using that assms(3) thresholdLoop_pixel[of i "length magnitude" "replicate (width * height * 4) 0" magnitude ?nt]
    by (simp add: edgeColor_def black_def white_def Let_def)
  from r l p show ?thesis by blast
qed

lemma js_gt_maxMagLoop:
  "i < length magnitude \<Longrightarrow> \<not> js_gt (f32_at magnitude i) (maxMagLoop magnitude)"
proof (cases "f32_at magnitude i")
  case None
  then show ?thesis by (simp add: js_gt_def)
next
  case (Some v)
  assume "i < length magnitude"
  from maxMagLoop_upper[OF this Some] Some show ?thesis by (simp add: js_gt_def)
qed

lemma black_neq_white: "black \<noteq> white"
  by (simp add: black_def white_def)

lemma filter_length_mono:
  "(\<And>x. x \<in> set xs \<Longrightarrow> P x \<Longrightarrow> Q x) \<Longrightarrow> length (filter P xs) \<le> length (filter Q xs)"
  by (induction xs) auto



lemma fl_65_255: "fl (65 / 255) = 4591905502416976 * 2 powi (- 2 - 52)"
  using fl_eqI[of "65 / 255" "- 2" 4591905502416976] by simp

lemma fl_65_255_459:
  "fl (4591905502416976 * 2 powi (- 2 - 52) * 459) = 8233143068786687 * 2 powi (6 - 52)"
  using fl_eqI[of "4591905502416976 * 2 powi (- 2 - 52) * 459" 6 8233143068786687] by simp

lemma cutoff_65_459: "fl (fl (65 / 255) * 459) = 8233143068786687 * 2 powi (6 - 52)"
  unfolding fl_65_255 fl_65_255_459 ..

lemma fl32_117: "fl32 117 = 117"
  using fl32_int[of 117] by simp

lemma fl32_459: "fl32 459 = 459"
  using fl32_int[of 459] by simp

lemma fl32_5: "fl32 5 = 5"
  using fl32_int[of 5] by simp

lemma maxMag_117_459: "maxMagLoop [Some 117, Some 459] = 459"
  by (simp add: maxMagLoop_def maxMagStep_def f32_at_def fl32_117 fl32_459)

lemma maxMag_0_5: "maxMagLoop [Some 0, Some 5] = 5"
  by (simp add: maxMagLoop_def maxMagStep_def f32_at_def fl32_zero fl32_5)

lemma fl_50_255: "fl (50 / 255) = 7064470003718425 * 2 powi (- 3 - 52)"
  using fl_eqI[of "50 / 255" "- 3" 7064470003718425] by simp

lemma fl_50_255_7:
  "fl (7064470003718425 * 2 powi (- 3 - 52) * 7) = 6181411253253622 * 2 powi (0 - 52)"
  using fl_eqI[of "7064470003718425 * 2 powi (- 3 - 52) * 7" 0 6181411253253622] by simp

lemma cutoff_50_7: "fl (fl (50 / 255) * 7) = 6181411253253622 * 2 powi (0 - 52)"
  unfolding fl_50_255 fl_50_255_7 ..

lemma fl32_7: "fl32 7 = 7"
  using fl32_int[of 7] by simp

lemma maxMag_corner:
  "maxMagLoop [Some 0, Some 0, Some 7, Some 0, Some 0, Some 0, Some 0, Some 0, Some 0] = 7"
  by (simp add: maxMagLoop_def maxMagStep_def f32_at_def fl32_zero fl32_7 upt_rec)

section \<open>The loops over the interior of the image\<close>

lemma fold_fold_fold_product:
  "fold (\<lambda>y. fold (\<lambda>x. fold (g y x) cs) xs) ys d =
   fold (\<lambda>(y, x, c). g y x c) (List.product ys (List.product xs cs)) d"
proof -
  have "(\<lambda>y. fold (\<lambda>x. fold (g y x) cs) xs) = (\<lambda>y. fold (\<lambda>(x, c). g y x c) (List.product xs cs))"
    by (intro ext) (rule fold_fold_product)
  then show ?thesis
    by (simp only: fold_fold_product[of "\<lambda>y. \<lambda>(x, c). g y x c"])
qed

lemma rowcol_lt:
  fixes x y w h :: nat
  assumes "x < w" "y < h"
  shows "y * w + x < w * h"
proof -
  have "y * w + x < y * w + w" using assms(1) by simp
  also have "\<dots> = Suc y * w" by simp
  also have "\<dots> \<le> h * w" using assms(2) by (intro mult_le_mono1) simp
  finally show ?thesis by (simp add: mult.commute)
qed

lemma rowcol_inj:
  fixes x y x' y' w :: nat
  assumes "x < w" "x' < w" "y * w + x = y' * w + x'"
  shows "y = y' \<and> x = x'"
proof -
  from assms(1) have "(y * w + x) div w = y" "(y * w + x) mod w = x" by simp_all
  moreover from assms(2) have "(y' * w + x') div w = y'" "(y' * w + x') mod w = x'" by simp_all
  ultimately show ?thesis using assms(3) by metis
qed

lemma channel_inj:
  fixes p q c c' :: nat
  assumes "c < 4" "c' < 4" "p * 4 + c = q * 4 + c'"
  shows "p = q \<and> c = c'"
  using assms by presburger

lemma interior_inj:
  "inj_on (\<lambda>(y, x, c). (y * width + x) * 4 + c) (set (interior width height))"
proof (rule inj_onI)
  fix a b :: "nat \<times> nat \<times> nat"
  obtain y x c where a: "a = (y, x, c)" by (cases a)
  obtain y' x' c' where b: "b = (y', x', c')" by (cases b)
  assume m: "a \<in> set (interior width height)" "b \<in> set (interior width height)"
    and "(case a of (y, x, c) \<Rightarrow> (y * width + x) * 4 + c) =
         (case b of (y, x, c) \<Rightarrow> (y * width + x) * 4 + c)"
  then have e: "(y * width + x) * 4 + c = (y' * width + x') * 4 + c'"
    by (simp add: a b)
  from m have c: "c < 4" "c' < 4" and x: "x < width" "x' < width"
    by (auto simp: interior_def a b)
  from channel_inj[OF c e] have "y * width + x = y' * width + x'" "c = c'" by simp_all
  with rowcol_inj[OF x] show "a = b" by (simp add: a b)
qed

lemma rgb_loop_length:
  "length (fold (\<lambda>y. fold (\<lambda>x. fold (\<lambda>c d. d[(y * width + x) * 4 + c := val y x c]) [0, 1, 2])
                           [1..<width - 1]) [1..<height - 1] d) = length d"
  unfolding fold_fold_fold_product
  using fold_store_length[of "\<lambda>(y, x, c). (y * width + x) * 4 + c" "\<lambda>(y, x, c). val y x c"]
  by (simp add: case_prod_unfold)

lemma rgb_loop_hit:
  assumes "0 < x" "x < width - 1" "0 < y" "y < height - 1" "c < 3"
    "(y * width + x) * 4 + c < length d"
  shows "fold (\<lambda>y. fold (\<lambda>x. fold (\<lambda>c d. d[(y * width + x) * 4 + c := val y x c]) [0, 1, 2])
                           [1..<width - 1]) [1..<height - 1] d ! ((y * width + x) * 4 + c)
         = val y x c"
proof -
  let ?pos = "\<lambda>(y, x, c). (y * width + x) * 4 + c"
  have m: "(y, x, c) \<in> set (interior width height)"
    using assms(1-5) by (auto simp: interior_def)
  have "fold (\<lambda>a d. d[?pos a := (\<lambda>(y, x, c). val y x c) a]) (interior width height) d ! ?pos (y, x, c)
        = (\<lambda>(y, x, c). val y x c) (y, x, c)"
    using assms(6) by (intro fold_store_hit[OF interior_inj m]) simp
  then show ?thesis
    unfolding fold_fold_fold_product interior_def by (simp add: case_prod_unfold)
qed

lemma rgb_loop_other:
  assumes "\<And>y x c. 0 < x \<Longrightarrow> x < width - 1 \<Longrightarrow> 0 < y \<Longrightarrow> y < height - 1 \<Longrightarrow> c < 3
             \<Longrightarrow> j \<noteq> (y * width + x) * 4 + c"
  shows "fold (\<lambda>y. fold (\<lambda>x. fold (\<lambda>c d. d[(y * width + x) * 4 + c := val y x c]) [0, 1, 2])
                           [1..<width - 1]) [1..<height - 1] d ! j = d ! j"
proof -
  let ?pos = "\<lambda>(y, x, c). (y * width + x) * 4 + c"
  have "j \<notin> ?pos ` set (interior width height)"
  proof
    assume "j \<in> ?pos ` set (interior width height)"
    then obtain y x c where "(y, x, c) \<in> set (interior width height)" "j = (y * width + x) * 4 + c"
      by auto
    moreover from this(1) have "0 < x" "x < width - 1" "0 < y" "y < height - 1" "c < 3"
      by (auto simp: interior_def)
    ultimately show False using assms by blast
  qed
  then have "fold (\<lambda>a d. d[?pos a := (\<lambda>(y, x, c). val y x c) a]) (interior width height) d ! j = d ! j"
    by (rule fold_store_other)
  then show ?thesis
    unfolding fold_fold_fold_product interior_def by (simp add: case_prod_unfold)
qed

section \<open>Reading the 3x3 neighbourhood\<close>

lemma read_at_int: "k < length xs \<Longrightarrow> read_at xs (int k) = Some (xs ! k)"
  by (simp add: read_at_def)

lemma read_at_window:
  assumes "length src = width * height * 4" "0 < x" "x < width - 1" "0 < y" "y < height - 1"
    "dx \<in> {-1, 0, 1}" "dy \<in> {-1, 0, 1}" "c < 4"
  shows "read_at src (((int y + dy) * int width + (int x + dx)) * 4 + int c)
         = Some (channel src width (nat (int x + dx)) (nat (int y + dy)) c)"
proof -
  from assms(2,3,6) obtain x' where x: "int x + dx = int x'" "x' < width"
    by (cases "int x + dx") auto
  from assms(4,5,7) obtain y' where y: "int y + dy = int y'" "y' < height"
    by (cases "int y + dy") auto
  have idx: "(int y' * int width + int x') * 4 + int c = int ((y' * width + x') * 4 + c)"
    by simp
  have "y' * width + x' < width * height" using x(2) y(2) by (rule rowcol_lt)
  with assms(8) have "(y' * width + x') * 4 + c < length src"
    unfolding assms(1) by simp
  then have "read_at src (int ((y' * width + x') * 4 + c)) = Some (src ! ((y' * width + x') * 4 + c))"
    by (rule read_at_int)
  then show ?thesis
    unfolding x(1) y(1) idx channel_def by simp
qed

lemma minStep_Some: "minStep (Some v) m = min v m"
  by (auto simp: minStep_def min_def)

lemma byte_le_255: "(v :: byte) \<le> 255"
proof -
  have "(255 :: byte) = - 1" by simp
  then show ?thesis by (simp only: word_order.extremum)
qed

lemma min_byte_255: "min (v :: byte) 255 = v"
  using byte_le_255[of v] by (simp add: min_def)

lemma samples_interior:
  assumes "0 < x" "0 < y"
  shows "samples src width x y c =
     [channel src width (x - 1) (y - 1) c, channel src width x (y - 1) c, channel src width (x + 1) (y - 1) c,
      channel src width (x - 1) y c, channel src width x y c, channel src width (x + 1) y c,
      channel src width (x - 1) (y + 1) c, channel src width x (y + 1) c, channel src width (x + 1) (y + 1) c]"
  using assms by (simp add: samples_def window_def)

lemma window_reads:
  assumes "length src = width * height * 4" "0 < x" "x < width - 1" "0 < y" "y < height - 1" "c < 4"
  shows "read_at src (((int y + - 1) * int width + (int x + - 1)) * 4 + int c) = Some (channel src width (x - 1) (y - 1) c)"
    "read_at src (((int y + - 1) * int width + (int x + 0)) * 4 + int c) = Some (channel src width x (y - 1) c)"
    "read_at src (((int y + - 1) * int width + (int x + 1)) * 4 + int c) = Some (channel src width (x + 1) (y - 1) c)"
    "read_at src (((int y + 0) * int width + (int x + - 1)) * 4 + int c) = Some (channel src width (x - 1) y c)"
    "read_at src (((int y + 0) * int width + (int x + 0)) * 4 + int c) = Some (channel src width x y c)"
    "read_at src (((int y + 0) * int width + (int x + 1)) * 4 + int c) = Some (channel src width (x + 1) y c)"
    "read_at src (((int y + 1) * int width + (int x + - 1)) * 4 + int c) = Some (channel src width (x - 1) (y + 1) c)"
    "read_at src (((int y + 1) * int width + (int x + 0)) * 4 + int c) = Some (channel src width x (y + 1) c)"
    "read_at src (((int y + 1) * int width + (int x + 1)) * 4 + int c) = Some (channel src width (x + 1) (y + 1) c)"
proof -
  have n: "nat (int x + - 1) = x - 1" "nat (int x + 0) = x" "nat (int x + 1) = x + 1"
          "nat (int y + - 1) = y - 1" "nat (int y + 0) = y" "nat (int y + 1) = y + 1"
    by simp_all
  note r = read_at_window[OF assms(1-5) _ _ assms(6)]
  show "read_at src (((int y + - 1) * int width + (int x + - 1)) * 4 + int c) = Some (channel src width (x - 1) (y - 1) c)"
    using r[of "-1" "-1"] unfolding n by simp
  show "read_at src (((int y + - 1) * int width + (int x + 0)) * 4 + int c) = Some (channel src width x (y - 1) c)"
    using r[of 0 "-1"] unfolding n by simp
  show "read_at src (((int y + - 1) * int width + (int x + 1)) * 4 + int c) = Some (channel src width (x + 1) (y - 1) c)"
    using r[of 1 "-1"] unfolding n by simp
  show "read_at src (((int y + 0) * int width + (int x + - 1)) * 4 + int c) = Some (channel src width (x - 1) y c)"
    using r[of "-1" 0] unfolding n by simp
  show "read_at src (((int y + 0) * int width + (int x + 0)) * 4 + int c) = Some (channel src width x y c)"
    using r[of 0 0] unfolding n by simp
  show "read_at src (((int y + 0) * int width + (int x + 1)) * 4 + int c) = Some (channel src width (x + 1) y c)"
    using r[of 1 0] unfolding n by simp
  show "read_at src (((int y + 1) * int width + (int x + - 1)) * 4 + int c) = Some (channel src width (x - 1) (y + 1) c)"
    using r[of "-1" 1] unfolding n by simp
  show "read_at src (((int y + 1) * int width + (int x + 0)) * 4 + int c) = Some (channel src width x (y + 1) c)"
    using r[of 0 1] unfolding n by simp
  show "read_at src (((int y + 1) * int width + (int x + 1)) * 4 + int c) = Some (channel src width (x + 1) (y + 1) c)"
    using r[of 1 1] unfolding n by simp
qed

section \<open>Properties of dilate\<close>

lemma dilateMin_unroll:
  "dilateMin src width x y =
    minStep (read_at src (((int y + 1) * int width + (int x + 1)) * 4))
   (minStep (read_at src (((int y + 1) * int width + (int x + 0)) * 4))
   (minStep (read_at src (((int y + 1) * int width + (int x + - 1)) * 4))
   (minStep (read_at src (((int y + 0) * int width + (int x + 1)) * 4))
   (minStep (read_at src (((int y + 0) * int width + (int x + 0)) * 4))
   (minStep (read_at src (((int y + 0) * int width + (int x + - 1)) * 4))
   (minStep (read_at src (((int y + - 1) * int width + (int x + 1)) * 4))
   (minStep (read_at src (((int y + - 1) * int width + (int x + 0)) * 4))
   (minStep (read_at src (((int y + - 1) * int width + (int x + - 1)) * 4)) 255))))))))"
  unfolding dilateMin_def by (simp only: fold.simps comp_def id_def Let_def)

lemma window_reads_red:
  assumes "length src = width * height * 4" "0 < x" "x < width - 1" "0 < y" "y < height - 1"
  shows "read_at src (((int y + - 1) * int width + (int x + - 1)) * 4) = Some (channel src width (x - 1) (y - 1) 0)"
    "read_at src (((int y + - 1) * int width + (int x + 0)) * 4) = Some (channel src width x (y - 1) 0)"
    "read_at src (((int y + - 1) * int width + (int x + 1)) * 4) = Some (channel src width (x + 1) (y - 1) 0)"
    "read_at src (((int y + 0) * int width + (int x + - 1)) * 4) = Some (channel src width (x - 1) y 0)"
    "read_at src (((int y + 0) * int width + (int x + 0)) * 4) = Some (channel src width x y 0)"
    "read_at src (((int y + 0) * int width + (int x + 1)) * 4) = Some (channel src width (x + 1) y 0)"
    "read_at src (((int y + 1) * int width + (int x + - 1)) * 4) = Some (channel src width (x - 1) (y + 1) 0)"
    "read_at src (((int y + 1) * int width + (int x + 0)) * 4) = Some (channel src width x (y + 1) 0)"
    "read_at src (((int y + 1) * int width + (int x + 1)) * 4) = Some (channel src width (x + 1) (y + 1) 0)"
  using window_reads[OF assms, of 0] by simp_all

lemma dilateMin_interior:
  assumes "length src = width * height * 4" "0 < x" "x < width - 1" "0 < y" "y < height - 1"
  shows "dilateMin src width x y = Min (set (samples src width x y 0))"
proof -
  have l: "dilateMin src width x y =
     fold min [channel src width x (y - 1) 0, channel src width (x + 1) (y - 1) 0,
      channel src width (x - 1) y 0, channel src width x y 0, channel src width (x + 1) y 0,
      channel src width (x - 1) (y + 1) 0, channel src width x (y + 1) 0, channel src width (x + 1) (y + 1) 0]
      (channel src width (x - 1) (y - 1) 0)"
    unfolding dilateMin_unroll window_reads_red[OF assms] minStep_Some min_byte_255 
    by (simp only: fold.simps comp_def id_def)
  show ?thesis
    unfolding l samples_interior[OF assms(2,4)] by (simp only: Min.set_eq_fold)
qed

lemma dilateStep_stores:
  "dilateStep src width y x =
   fold (\<lambda>c d. d[(y * width + x) * 4 + c := dilateMin src width x y]) [0, 1, 2]"
  by (rule ext) (simp add: dilateStep_def Let_def)

lemma dilate_stores:
  "dilate data width height =
   fold (\<lambda>y. fold (\<lambda>x. fold (\<lambda>c d. d[(y * width + x) * 4 + c := dilateMin data width x y]) [0, 1, 2])
                    [1..<width - 1]) [1..<height - 1] data"
  unfolding dilate_def Let_def dilateStep_stores ..

lemma dilate_length: "length (dilate data width height) = length data"
  unfolding dilate_stores by (rule rgb_loop_length)

lemma interior_index_lt:
  assumes "length data = width * height * 4" "x < width - 1" "y < height - 1" "c < 4"
  shows "(y * width + x) * 4 + c < length data"
proof -
  from assms(2,3) have "y * width + x < width * height" by (intro rowcol_lt) simp_all
  with assms(1,4) show ?thesis by simp
qed

lemma dilate_interior:
  assumes "length data = width * height * 4" "isInterior width height x y" "c < 3"
  shows "channel (dilate data width height) width x y c = Min (set (samples data width x y 0))"
proof -
  from assms(2) have i: "0 < x" "x < width - 1" "0 < y" "y < height - 1"
    by (simp_all add: isInterior_def)
  from assms(3) have "c < 4" by simp
  from interior_index_lt[OF assms(1) i(2,4) this]
  have "channel (dilate data width height) width x y c = dilateMin data width x y"
    unfolding channel_def dilate_stores using i assms(3) by (intro rgb_loop_hit)
  with dilateMin_interior[OF assms(1) i] show ?thesis by simp
qed

lemma border_not_interior:
  assumes "isBorder width height x y" "0 < x'" "x' < width - 1" "0 < y'" "y' < height - 1" "c' < 3" "c < 4"
  shows "(y * width + x) * 4 + c \<noteq> (y' * width + x') * 4 + c'"
proof
  assume e: "(y * width + x) * 4 + c = (y' * width + x') * 4 + c'"
  from assms(6) have "c' < 4" by simp
  from channel_inj[OF assms(7) this e] have "y * width + x = y' * width + x'" by simp
  moreover from assms(1) have "x < width" by (simp add: isBorder_def)
  moreover from assms(3) have "x' < width" by simp
  ultimately have "y = y'" "x = x'" using rowcol_inj by blast+
  with assms(1-5) show False by (auto simp: isBorder_def)
qed

lemma alpha_not_rgb:
  fixes p q c :: nat
  assumes "c < 3"
  shows "p * 4 + 3 \<noteq> q * 4 + c"
  using assms by presburger

lemma dilate_border:
  assumes "isBorder width height x y" "c < 4"
  shows "channel (dilate data width height) width x y c = channel data width x y c"
  unfolding channel_def dilate_stores
  by (rule rgb_loop_other) (use border_not_interior[OF assms(1) _ _ _ _ _ assms(2)] in blast)

lemma dilate_alpha: "dilate data width height ! (p * 4 + 3) = data ! (p * 4 + 3)"
  unfolding dilate_stores
  by (rule rgb_loop_other) (use alpha_not_rgb in blast)



lemma dilateLoop_0: "dilateLoop 0 data width height = data"
  by (simp add: dilateLoop_def)

lemma dilateLoop_Suc:
  "dilateLoop (Suc n) data width height = dilate (dilateLoop n data width height) width height"
  by (simp add: dilateLoop_def)

lemma Min_zero_byte:
  assumes "(0 :: byte) \<in> set vs"
  shows "Min (set vs) = 0"
proof -
  have "Min (set vs) \<le> 0" using assms by (intro Min_le) simp_all
  then show ?thesis by simp
qed

lemma rgba_bw_cases:
  "(rgba data i = black \<or> rgba data i = white) \<longleftrightarrow>
   (data ! (i * 4 + 3) = 255 \<and> data ! (i * 4 + 1) = data ! (i * 4) \<and> data ! (i * 4 + 2) = data ! (i * 4)
    \<and> (data ! (i * 4) = 0 \<or> data ! (i * 4) = 255))"
  by (auto simp: rgba_def black_def white_def)

lemma read_red_bw:
  assumes "pureBW src"
  shows "read_at src (k * 4) \<in> {None, Some 0, Some 255}"
proof (cases "0 \<le> k * 4 \<and> nat (k * 4) < length src")
  case False
  then show ?thesis by (auto simp: read_at_def)
next
  case True
  then obtain q where q: "k = int q" by (cases k) auto
  with True have "q * 4 < length src" by simp
  moreover from assms have "length src mod 4 = 0" by (simp add: pureBW_def)
  ultimately have "q < length src div 4" by presburger
  with assms have "rgba src q = black \<or> rgba src q = white" by (simp add: pureBW_def)
  then have "src ! (q * 4) = 0 \<or> src ! (q * 4) = 255" by (simp add: rgba_bw_cases)
  moreover have "read_at src (k * 4) = Some (src ! (q * 4))"
    using \<open>q * 4 < length src\<close> read_at_int[of "q * 4" src] by (simp add: q)
  ultimately show ?thesis by auto
qed

lemma minStep_bw:
  assumes "v \<in> {None, Some 0, Some 255}" "m = 0 \<or> m = 255"
  shows "minStep v m = 0 \<or> minStep v m = 255"
  using assms by (auto simp: minStep_def)

lemma dilateMin_bw:
  assumes "pureBW src"
  shows "dilateMin src width x y = 0 \<or> dilateMin src width x y = 255"
  unfolding dilateMin_unroll
  by (intro minStep_bw read_red_bw[OF assms]) simp


lemma dilate_pureBW:
  assumes "pureBW data"
  shows "pureBW (dilate data width height)"
proof -
  let ?out = "dilate data width height"
  have len: "length ?out = length data" by (rule dilate_length)
  have px: "rgba ?out i = black \<or> rgba ?out i = white" if i: "i < length data div 4" for i
  proof -
    from assms i have old: "rgba data i = black \<or> rgba data i = white"
      by (simp add: pureBW_def)
    have alpha: "?out ! (i * 4 + 3) = data ! (i * 4 + 3)" by (rule dilate_alpha)
    show ?thesis
    proof (cases "\<exists>y x. 0 < x \<and> x < width - 1 \<and> 0 < y \<and> y < height - 1 \<and> i = y * width + x")
      case True
      then obtain y x where yx: "0 < x" "x < width - 1" "0 < y" "y < height - 1" "i = y * width + x"
        by blast
      have "?out ! ((y * width + x) * 4 + c) = dilateMin data width x y" if "c < 3" for c
      proof -
        from i that have "(y * width + x) * 4 + c < length data" unfolding yx(5)[symmetric] by simp
        then show ?thesis unfolding dilate_stores using yx(1-4) that by (intro rgb_loop_hit)
      qed
      from this[of 0] this[of 1] this[of 2]
      have "?out ! (i * 4) = dilateMin data width x y" "?out ! (i * 4 + 1) = dilateMin data width x y"
        "?out ! (i * 4 + 2) = dilateMin data width x y"
        by (simp_all add: yx(5))
      with alpha old dilateMin_bw[OF assms, of width x y] show ?thesis
        unfolding rgba_bw_cases by simp
    next
      case False
      have "?out ! (i * 4 + c) = data ! (i * 4 + c)" if "c < 4" for c
        unfolding dilate_stores
      proof (rule rgb_loop_other)
        fix y x c' :: nat
        assume a: "0 < x" "x < width - 1" "0 < y" "y < height - 1" "c' < 3"
        show "i * 4 + c \<noteq> (y * width + x) * 4 + c'"
        proof
          assume "i * 4 + c = (y * width + x) * 4 + c'"
          with that a(5) have "i = y * width + x" by presburger
          with a False show False by blast
        qed
      qed
      from this[of 0] this[of 1] this[of 2] this[of 3] have "rgba ?out i = rgba data i"
        by (simp add: rgba_def)
      with old show ?thesis by simp
    qed
  qed
  from assms have "length data mod 4 = 0" by (simp add: pureBW_def)
  with px show ?thesis by (simp add: pureBW_def len)
qed

lemma dilateLoop_pureBW:
  "pureBW data \<Longrightarrow> pureBW (dilateLoop n data width height)"
  by (induction n) (simp_all add: dilateLoop_0 dilateLoop_Suc dilate_pureBW)

lemma thresholdEdges_pureBW:
  assumes "0 < width" "0 < height" "length magnitude = width * height"
  shows "\<exists>out. thresholdEdges magnitude width height threshold = Inr out \<and> pureBW out"
proof -
  from thresholdEdges_pixels[OF assms, of threshold] obtain out where
    o: "thresholdEdges magnitude width height threshold = Inr out" "length out = width * height * 4"
    and p: "\<And>i. i < width * height \<Longrightarrow> rgba out i =
                 (if js_gt (f32_at magnitude i) (fl (fl (threshold / 255) * maxMagLoop magnitude))
                  then black else white)"
    by blast
  have "rgba out i = black \<or> rgba out i = white" if "i < width * height" for i
    using p[OF that] by simp
  with o(2) have "pureBW out" by (simp add: pureBW_def)
  with o(1) show ?thesis by blast
qed



section \<open>Properties of boxBlur\<close>

lemma toUint8Clamp_ninth:
  assumes "0 \<le> s" "s \<le> 2295"
  shows "toUint8Clamp (Some (of_int s / 9)) = word_of_int ((s + 4) div 9)"
proof -
  define f where "f = s div 9"
  define r where "r = s mod 9"
  have s: "s = 9 * f + r" and r: "0 \<le> r" "r < 9" by (simp_all add: f_def r_def)
  have v: "(of_int s :: real) / 9 = of_int f + of_int r / 9" by (simp add: s)
  have fl: "\<lfloor>(of_int s :: real) / 9\<rfloor> = f"
    unfolding v using r by (intro floor_unique) simp_all
  consider "s = 0" | "s = 2295" | "0 < s" "s < 2295" using assms by linarith
  then show ?thesis
  proof cases
    case 1
    then show ?thesis by (simp add: toUint8Clamp_def)
  next
    case 2
    then show ?thesis by (simp add: toUint8Clamp_def)
  next
    case 3
    then have b: "\<not> (of_int s :: real) / 9 \<le> 0" "\<not> 255 \<le> (of_int s :: real) / 9" by simp_all
    have up: "(of_int f + 1 / 2 < (of_int s :: real) / 9) = (5 \<le> r)"
      unfolding v using r by (simp add: field_simps) linarith
    have down: "((of_int s :: real) / 9 < of_int f + 1 / 2) = (r \<le> 4)"
      unfolding v using r by (simp add: field_simps) linarith
    have q: "(s + 4) div 9 = (if 5 \<le> r then f + 1 else f)"
      unfolding s using r by (auto simp: div_pos_pos_trivial) 
    show ?thesis
      unfolding toUint8Clamp_def option.case if_not_P[OF b(1)] if_not_P[OF b(2)] Let_def fl up down q
      using r by auto
  qed
qed


lemma blurSum_unroll:
  "blurSum src width x y c =
    js_add (js_add (js_add (js_add (js_add (js_add (js_add (js_add (js_add (Some 0)
      (read_at src (((int y + - 1) * int width + (int x + - 1)) * 4 + int c)))
      (read_at src (((int y + - 1) * int width + (int x + 0)) * 4 + int c)))
      (read_at src (((int y + - 1) * int width + (int x + 1)) * 4 + int c)))
      (read_at src (((int y + 0) * int width + (int x + - 1)) * 4 + int c)))
      (read_at src (((int y + 0) * int width + (int x + 0)) * 4 + int c)))
      (read_at src (((int y + 0) * int width + (int x + 1)) * 4 + int c)))
      (read_at src (((int y + 1) * int width + (int x + - 1)) * 4 + int c)))
      (read_at src (((int y + 1) * int width + (int x + 0)) * 4 + int c)))
      (read_at src (((int y + 1) * int width + (int x + 1)) * 4 + int c))"
  unfolding blurSum_def by (simp only: fold.simps comp_def id_def)

lemma js_add_Some: "js_add (Some s) (Some b) = Some (s + uint b)"
  by (simp add: js_add_def)

lemma blurSum_interior:
  assumes "length src = width * height * 4" "0 < x" "x < width - 1" "0 < y" "y < height - 1" "c < 4"
  shows "blurSum src width x y c = Some (sum_list (map uint (samples src width x y c)))"
  unfolding blurSum_unroll window_reads[OF assms] js_add_Some samples_interior[OF assms(2,4)]
  by simp

lemma samples_length: "length (samples src width x y c) = 9"
  by (simp add: samples_def window_def)

lemma uint_byte_le: "uint (b :: byte) \<le> 255"
  using uint_bounded[of b] by simp

lemma sum_samples_bounds:
  assumes "0 < x" "0 < y"
  shows "0 \<le> sum_list (map uint (samples src width x y c))"
    "sum_list (map uint (samples src width x y c)) \<le> 2295"
proof -
  show "0 \<le> sum_list (map uint (samples src width x y c))"
    by (rule sum_list_nonneg) auto
  have "sum_list (map uint vs) \<le> 255 * int (length vs)" for vs :: "byte list"
  proof (induction vs)
    case Nil
    then show ?case by simp
  next
    case (Cons v vs)
    then show ?case using uint_byte_le[of v] by simp
  qed
  from this[of "samples src width x y c"]
  show "sum_list (map uint (samples src width x y c)) \<le> 2295"
    by (simp add: samples_length)
qed

lemma blurStep_store:
  "blurStep src width y x c =
   (\<lambda>d. d[(y * width + x) * 4 + c := toUint8Clamp (js_div9 (blurSum src width x y c))])"
  by (rule ext) (simp add: blurStep_def Let_def)

lemma boxBlur_stores:
  "boxBlur data width height =
   fold (\<lambda>y. fold (\<lambda>x. fold (\<lambda>c d. d[(y * width + x) * 4 + c :=
                                   toUint8Clamp (js_div9 (blurSum data width x y c))]) [0, 1, 2])
                    [1..<width - 1]) [1..<height - 1] data"
  unfolding boxBlur_def Let_def blurStep_store ..

lemma boxBlur_length: "length (boxBlur data width height) = length data"
  unfolding boxBlur_stores by (rule rgb_loop_length)

lemma boxBlur_interior:
  assumes "length data = width * height * 4" "isInterior width height x y" "c < 3"
  shows "channel (boxBlur data width height) width x y c
         = toUint8Clamp (Some (mean (samples data width x y c)))"
    and "channel (boxBlur data width height) width x y c
         = word_of_int ((sum_list (map uint (samples data width x y c)) + 4) div 9)"
proof -
  from assms(2) have i: "0 < x" "x < width - 1" "0 < y" "y < height - 1"
    by (simp_all add: isInterior_def)
  from assms(3) have c4: "c < 4" by simp
  from interior_index_lt[OF assms(1) i(2,4) c4]
  have "channel (boxBlur data width height) width x y c
        = toUint8Clamp (js_div9 (blurSum data width x y c))"
    unfolding channel_def boxBlur_stores using i assms(3) by (intro rgb_loop_hit)
  then have e: "channel (boxBlur data width height) width x y c
        = toUint8Clamp (Some (of_int (sum_list (map uint (samples data width x y c))) / 9))"
    unfolding blurSum_interior[OF assms(1) i c4] by (simp add: js_div9_def)
  then show "channel (boxBlur data width height) width x y c
         = toUint8Clamp (Some (mean (samples data width x y c)))"
    by (simp add: mean_def samples_length)
  from e toUint8Clamp_ninth[OF sum_samples_bounds[OF i(1,3)]]
  show "channel (boxBlur data width height) width x y c
         = word_of_int ((sum_list (map uint (samples data width x y c)) + 4) div 9)"
    by simp
qed

lemma boxBlur_border:
  assumes "isBorder width height x y" "c < 4"
  shows "channel (boxBlur data width height) width x y c = channel data width x y c"
  unfolding channel_def boxBlur_stores
  by (rule rgb_loop_other) (use border_not_interior[OF assms(1) _ _ _ _ _ assms(2)] in blast)

lemma boxBlur_alpha: "boxBlur data width height ! (p * 4 + 3) = data ! (p * 4 + 3)"
  unfolding boxBlur_stores
  by (rule rgb_loop_other) (use alpha_not_rgb in blast)

lemma blurLoop_0: "blurLoop 0 data width height = data"
  by (simp add: blurLoop_def)

lemma blurLoop_Suc:
  "blurLoop (Suc n) data width height = boxBlur (blurLoop n data width height) width height"
  by (simp add: blurLoop_def)

section \<open>The rounded square root\<close>

lemma isqrt_bounds:
  assumes "0 \<le> n"
  shows "0 \<le> isqrt n \<and> isqrt n * isqrt n \<le> n \<and> n < (isqrt n + 1) * (isqrt n + 1)"
  using assms
proof (induction n rule: isqrt.induct)
  case (1 n)
  show ?case
  proof (cases "n \<le> 0")
    case True
    with "1.prems" have "n = 0" by simp
    then show ?thesis by (simp add: isqrt.simps)
  next
    case False
    define m where "m = n div 4"
    define a where "a = isqrt m"
    define A where "A = a * a"
    from False have m0: "0 \<le> m" by (simp add: m_def)
    from "1.IH"[OF False] m0 have IH: "0 \<le> a" "A \<le> m" "m < (a + 1) * (a + 1)"
      by (simp_all add: m_def a_def A_def)
    from IH(3) have up: "m < A + 2 * a + 1" by (simp add: A_def algebra_simps)
    have n: "4 * m \<le> n" "n < 4 * m + 4" by (simp_all add: m_def)
    have sq: "(2 * a + 1) * (2 * a + 1) = 4 * A + 4 * a + 1"
      "(2 * a + 1 + 1) * (2 * a + 1 + 1) = 4 * A + 8 * a + 4"
      "(2 * a) * (2 * a) = 4 * A"
      by (simp_all add: A_def algebra_simps)
    have e: "isqrt n = (if (2 * a + 1) * (2 * a + 1) \<le> n then 2 * a + 1 else 2 * a)"
      using False by (subst isqrt.simps) (simp add: Let_def m_def a_def)
    show ?thesis
    proof (cases "(2 * a + 1) * (2 * a + 1) \<le> n")
      case True
      then have "isqrt n = 2 * a + 1" by (simp add: e)
      with True IH(1) up n sq show ?thesis by simp
    next
      case False
      then have "isqrt n = 2 * a" by (simp add: e)
      with False IH(1,2) n sq show ?thesis by simp
    qed
  qed
qed


lemma sqrt_binade:
  assumes "0 < x"
  shows "2 powi (2 * (binade x div 2)) \<le> x" "x < 2 powi (2 * (binade x div 2) + 2)"
proof -
  have "2 * (binade x div 2) \<le> binade x" by simp
  then have "(2::rat) powi (2 * (binade x div 2)) \<le> 2 powi binade x"
    by (intro power_int_increasing) simp_all
  with binade_bounds(1)[OF assms] show "2 powi (2 * (binade x div 2)) \<le> x" by linarith
  have "binade x + 1 \<le> 2 * (binade x div 2) + 2" by presburger
  then have "(2::rat) powi (binade x + 1) \<le> 2 powi (2 * (binade x div 2) + 2)"
    by (intro power_int_increasing) simp_all
  with binade_bounds(2)[OF assms] show "x < 2 powi (2 * (binade x div 2) + 2)" by linarith
qed

lemma js_sqrt_positive:
  assumes "0 < x"
  defines "u \<equiv> (2::rat) powi (binade x div 2 - 52)"
  shows "\<exists>k. js_sqrt x = Some (of_int k * u) \<and> 1 \<le> k
           \<and> (of_int k - 1 / 2) * (of_int k - 1 / 2) \<le> x / (u * u)
           \<and> x / (u * u) \<le> (of_int k + 1 / 2) * (of_int k + 1 / 2)"
proof -
  define e where "e = binade x div 2"
  define N where "N = x / (u * u)"
  define f where "f = \<lfloor>N\<rfloor>"
  define k0 where "k0 = isqrt f"
  define K :: rat where "K = of_int k0 * of_int k0"
  define h :: rat where "h = (of_int k0 + 1 / 2) * (of_int k0 + 1 / 2)"
  define k where "k = (if h < N then k0 + 1 else if N < h then k0 else if even k0 then k0 else k0 + 1)"
  have u: "0 < u" by (simp add: u_def)
  have uu: "u * u = 2 powi (2 * e - 104)"
    by (simp add: u_def e_def flip: power_int_add)
  have "2 powi (2 * e) \<le> x" unfolding e_def by (rule sqrt_binade(1)[OF assms(1)])
  then have "2 powi (2 * e) / (u * u) \<le> N"
    unfolding N_def using u by (intro divide_right_mono) simp_all
  moreover have "(2::rat) powi (2 * e) / (u * u) = 2 powi 104"
    unfolding uu by (simp flip: power_int_diff)
  ultimately have N1: "1 \<le> N" by simp
  then have f1: "1 \<le> f" by (simp add: f_def le_floor_iff)
  then have f0: "0 \<le> f" by simp
  from isqrt_bounds[OF f0] have b: "0 \<le> k0" "k0 * k0 \<le> f" "f < (k0 + 1) * (k0 + 1)"
    by (simp_all add: k0_def)
  have k01: "1 \<le> k0"
  proof (rule ccontr)
    assume "\<not> 1 \<le> k0"
    with b(1) have "k0 = 0" by simp
    with b(3) f1 show False by simp
  qed
  have "of_int (k0 * k0) \<le> (of_int f :: rat)" using b(2) by (simp only: of_int_le_iff)
  moreover have "of_int f \<le> N" by (simp add: f_def)
  ultimately have lo: "K \<le> N" by (simp add: K_def)
  from b(3) have "f + 1 \<le> (k0 + 1) * (k0 + 1)" by simp
  then have "(of_int (f + 1) :: rat) \<le> of_int ((k0 + 1) * (k0 + 1))" by (simp only: of_int_le_iff)
  moreover have "N < of_int (f + 1)" unfolding f_def by linarith
  ultimately have hi: "N < K + 2 * of_int k0 + 1" by (simp add: K_def algebra_simps)
  have k0r: "(1::rat) \<le> of_int k0" using k01 by simp
  have hK: "h = K + of_int k0 + 1 / 4" by (simp add: h_def K_def algebra_simps)
  have r: "js_sqrt x = Some (of_int k * u)"
    using assms(1)
    by (simp add: js_sqrt_def Let_def u_def N_def[unfolded u_def, symmetric] f_def[symmetric]
          k0_def[symmetric] h_def[symmetric] k_def)
  have cases: "k = k0 \<and> N \<le> h \<or> k = k0 + 1 \<and> h \<le> N"
    by (auto simp: k_def)
  then have "1 \<le> k \<and> (of_int k - 1 / 2) * (of_int k - 1 / 2) \<le> N
           \<and> N \<le> (of_int k + 1 / 2) * (of_int k + 1 / 2)"
  proof
    assume c: "k = k0 \<and> N \<le> h"
    have "(of_int k0 - 1 / 2) * (of_int k0 - 1 / 2) = K - of_int k0 + 1 / 4"
      by (simp add: K_def algebra_simps)
    with c lo k0r k01 show ?thesis by (simp add: h_def)
  next
    assume c: "k = k0 + 1 \<and> h \<le> N"
    have "(of_int (k0 + 1) - 1 / 2) * (of_int (k0 + 1) - 1 / 2) = h"
      by (simp add: h_def algebra_simps)
    moreover have "(of_int (k0 + 1) + 1 / 2) * (of_int (k0 + 1) + 1 / 2) = K + 3 * of_int k0 + 9 / 4"
      by (simp add: K_def algebra_simps)
    ultimately show ?thesis using c hi k0r k01 by simp
  qed
  with r show ?thesis unfolding N_def by blast
qed


lemma square_mono_rat:
  fixes a b :: rat
  assumes "0 \<le> a" "a \<le> b"
  shows "a * a \<le> b * b"
  using assms by (intro mult_mono) simp_all

lemma js_sqrt_eqI:
  assumes "2 powi (2 * e) \<le> x" "x < 2 powi (2 * e + 2)" "0 \<le> k"
    "(of_int k - 1 / 2) * (of_int k - 1 / 2) < x / (2 powi (e - 52) * 2 powi (e - 52))"
    "x / (2 powi (e - 52) * 2 powi (e - 52)) < (of_int k + 1 / 2) * (of_int k + 1 / 2)"
  shows "js_sqrt x = Some (of_int k * 2 powi (e - 52))"
proof -
  have "(0::rat) < 2 powi (2 * e)" by simp
  with assms(1) have x: "0 < x" by linarith
  note b = binade_bounds[OF x]
  have "(2::rat) powi (2 * e) < 2 powi (binade x + 1)" using assms(1) b(2) by simp
  then have 1: "2 * e < binade x + 1"
    using power_int_increasing[of "binade x + 1" "2 * e" "2::rat"]
    by (cases "2 * e < binade x + 1") auto
  have "(2::rat) powi binade x < 2 powi (2 * e + 2)" using assms(2) b(1) by simp
  then have 2: "binade x < 2 * e + 2"
    using power_int_increasing[of "2 * e + 2" "binade x" "2::rat"]
    by (cases "binade x < 2 * e + 2") auto
  from 1 2 have e: "binade x div 2 = e" by presburger
  define N where "N = x / (2 powi (e - 52) * 2 powi (e - 52))"
  from js_sqrt_positive[OF x, unfolded e] obtain k' where k':
    "js_sqrt x = Some (of_int k' * 2 powi (e - 52))" "1 \<le> k'"
    "(of_int k' - 1 / 2) * (of_int k' - 1 / 2) \<le> N"
    "N \<le> (of_int k' + 1 / 2) * (of_int k' + 1 / 2)"
    unfolding N_def by blast
  have a: "(of_int k - 1 / 2) * (of_int k - 1 / 2) < N"
    "N < (of_int k + 1 / 2) * (of_int k + 1 / 2)"
    using assms(4,5) by (simp_all add: N_def)
  have "\<not> k + 1 \<le> k'"
  proof
    assume "k + 1 \<le> k'"
    then have "(of_int k :: rat) + 1 \<le> of_int k'" by (metis of_int_le_iff of_int_add of_int_1)
    moreover have "(0::rat) \<le> of_int k" using assms(3) by simp
    ultimately have "(of_int k + 1 / 2) * (of_int k + 1 / 2) \<le> (of_int k' - 1 / 2) * (of_int k' - 1 / 2 :: rat)"
      by (intro square_mono_rat) simp_all
    with a(2) k'(3) show False by linarith
  qed
  moreover have "\<not> k' + 1 \<le> k"
  proof
    assume "k' + 1 \<le> k"
    then have "(of_int k' :: rat) + 1 \<le> of_int k" by (metis of_int_le_iff of_int_add of_int_1)
    moreover have "(1::rat) \<le> of_int k'" using k'(2) by simp
    ultimately have "(of_int k' + 1 / 2) * (of_int k' + 1 / 2) \<le> (of_int k - 1 / 2) * (of_int k - 1 / 2 :: rat)"
      by (intro square_mono_rat) simp_all
    with a(1) k'(4) show False by linarith
  qed
  ultimately have "k' = k" by linarith
  with k'(1) show ?thesis by simp
qed

lemma of_rat_powi: "real_of_rat (2 powi n) = 2 powi n"
  by (simp add: power_int_def of_rat_power of_rat_divide)

lemma js_sqrt_zero: "js_sqrt 0 = Some 0"
  by (simp add: js_sqrt_def)

lemma js_sqrt_error:
  assumes "0 < x"
  shows "\<exists>r. js_sqrt x = Some r \<and> 0 < r
    \<and> \<bar>real_of_rat r - sqrt (real_of_rat x)\<bar> \<le> sqrt (real_of_rat x) / 2 ^ 53"
proof -
  define e where "e = binade x div 2"
  define u :: rat where "u = 2 powi (e - 52)"
  define U :: real where "U = 2 powi (e - 52)"
  define S where "S = sqrt (real_of_rat x)"
  have u: "0 < u" by (simp add: u_def)
  have U: "0 < U" by (simp add: U_def)
  have uU: "real_of_rat u = U" by (simp add: u_def U_def of_rat_powi)
  from js_sqrt_positive[OF assms] obtain k where k:
    "js_sqrt x = Some (of_int k * u)" "1 \<le> k"
    "(of_int k - 1 / 2) * (of_int k - 1 / 2) \<le> x / (u * u)"
    "x / (u * u) \<le> (of_int k + 1 / 2) * (of_int k + 1 / 2)"
    unfolding u_def e_def by blast
  from k(3) u have "((of_int k - 1 / 2) * u) * ((of_int k - 1 / 2) * u) \<le> x"
    by (simp add: field_simps)
  then have "real_of_rat (((of_int k - 1 / 2) * u) * ((of_int k - 1 / 2) * u)) \<le> real_of_rat x"
    by (simp only: of_rat_less_eq)
  then have "((of_int k - 1 / 2) * U)\<^sup>2 \<le> real_of_rat x"
    by (simp add: of_rat_mult of_rat_diff of_rat_divide uU power2_eq_square)
  then have lo: "(of_int k - 1 / 2) * U \<le> S" unfolding S_def by (rule real_le_rsqrt)
  from k(4) u have "x \<le> ((of_int k + 1 / 2) * u) * ((of_int k + 1 / 2) * u)"
    by (simp add: field_simps)
  then have "real_of_rat x \<le> real_of_rat (((of_int k + 1 / 2) * u) * ((of_int k + 1 / 2) * u))"
    by (simp only: of_rat_less_eq)
  then have "real_of_rat x \<le> ((of_int k + 1 / 2) * U)\<^sup>2"
    by (simp add: of_rat_mult of_rat_add of_rat_divide uU power2_eq_square)
  moreover have "0 \<le> (of_int k + 1 / 2) * U" using k(2) U by simp
  ultimately have hi: "S \<le> (of_int k + 1 / 2) * U" unfolding S_def by (intro real_le_lsqrt)
  have "2 powi (2 * e) \<le> x" unfolding e_def by (rule sqrt_binade(1)[OF assms])
  then have "real_of_rat (2 powi (2 * e)) \<le> real_of_rat x" by (simp only: of_rat_less_eq)
  moreover have "real_of_rat (2 powi (2 * e)) = (2 powi e)\<^sup>2"
    by (simp add: of_rat_powi power2_eq_square flip: power_int_add)
  ultimately have "(2 powi e)\<^sup>2 \<le> real_of_rat x" by simp
  then have "2 powi e \<le> S" unfolding S_def by (rule real_le_rsqrt)
  moreover have "U / 2 = 2 powi e / 2 ^ 53"
    unfolding U_def by (simp add: power_int_diff)
  ultimately have half: "U / 2 \<le> S / 2 ^ 53" by (simp add: divide_right_mono)
  have "of_int k * U - S \<le> U / 2" "S - of_int k * U \<le> U / 2"
    using lo hi by (simp_all add: algebra_simps)
  then have "\<bar>of_int k * U - S\<bar> \<le> U / 2" by linarith
  with half have "\<bar>of_int k * U - S\<bar> \<le> S / 2 ^ 53" by linarith
  moreover have "real_of_rat (of_int k * u) = of_int k * U" by (simp add: of_rat_mult uU)
  moreover have "0 < of_int k * u" using k(2) u by simp
  ultimately show ?thesis using k(1) unfolding S_def by simp
qed


lemma js_sqrt_square:
  assumes "0 < m" "m < 2 ^ 53"
  shows "js_sqrt (of_int (m * m)) = Some (of_int m)"
proof -
  define x :: rat where "x = of_int (m * m)"
  define e where "e = binade x div 2"
  define u :: rat where "u = 2 powi (e - 52)"
  have mr: "(0::rat) < of_int m" using assms(1) by simp
  have x: "0 < x" using assms(1) by (simp add: x_def)
  have xm: "x = of_int m * of_int m" by (simp add: x_def)
  have u: "0 < u" by (simp add: u_def)
  have "(of_int m :: rat) < of_int (2 ^ 53)" using assms(2) by (simp only: of_int_less_iff)
  then have m53: "(of_int m :: rat) < 2 powi 53" by simp
  have "(2::rat) powi (2 * e) \<le> x" unfolding e_def by (rule sqrt_binade(1)[OF x])
  moreover have "(2::rat) powi (2 * e) = 2 powi e * 2 powi e" by (simp flip: power_int_add)
  ultimately have ee: "(2::rat) powi e * 2 powi e \<le> of_int m * of_int m" by (simp add: xm)
  have em: "(2::rat) powi e \<le> of_int m"
  proof (rule ccontr)
    assume "\<not> (2::rat) powi e \<le> of_int m"
    then have "(of_int m :: rat) < 2 powi e" by simp
    then have "(of_int m :: rat) * of_int m < 2 powi e * 2 powi e"
      using mr by (intro mult_strict_mono) simp_all
    with ee show False by simp
  qed
  with m53 have "(2::rat) powi e < 2 powi 53" by linarith
  then have e53: "e < 53"
    using power_int_increasing[of 53 e "2::rat"] by (cases "e < 53") auto
  define M where "M = m * 2 ^ nat (52 - e)"
  have "(1::rat) / u = 2 powi (52 - e)" by (simp add: u_def power_int_diff)
  also have "\<dots> = of_int (2 ^ nat (52 - e))" using e53 by (intro powi_of_int) simp
  finally have iu: "1 / u = of_int (2 ^ nat (52 - e))" .
  have Mu: "of_int m / u = of_int M"
  proof -
    have "of_int m / u = of_int m * (1 / u)" by simp
    also have "\<dots> = of_int M" unfolding iu M_def by simp
    finally show ?thesis .
  qed
  have N: "x / (u * u) = of_int M * of_int M"
  proof -
    have "x / (u * u) = (of_int m / u) * (of_int m / u)" by (simp add: xm)
    then show ?thesis by (simp only: Mu)
  qed
  have M0: "0 < M" using assms(1) by (simp add: M_def)
  from js_sqrt_positive[OF x] obtain k where k:
    "js_sqrt x = Some (of_int k * u)" "1 \<le> k"
    "(of_int k - 1 / 2) * (of_int k - 1 / 2) \<le> x / (u * u)"
    "x / (u * u) \<le> (of_int k + 1 / 2) * (of_int k + 1 / 2)"
    unfolding u_def e_def by blast
  have "\<not> M + 1 \<le> k"
  proof
    assume "M + 1 \<le> k"
    then have "(of_int M :: rat) + 1 \<le> of_int k" by (metis of_int_le_iff of_int_add of_int_1)
    moreover have "(0::rat) < of_int M" using M0 by simp
    ultimately have "(of_int M + 1 / 2) * (of_int M + 1 / 2) \<le> (of_int k - 1 / 2) * (of_int k - 1 / 2 :: rat)"
      by (intro square_mono_rat) simp_all
    moreover have "(of_int M :: rat) * of_int M < (of_int M + 1 / 2) * (of_int M + 1 / 2)"
      using \<open>(0::rat) < of_int M\<close> by (simp add: algebra_simps)
    ultimately show False using k(3) unfolding N by linarith
  qed
  moreover have "\<not> k + 1 \<le> M"
  proof
    assume "k + 1 \<le> M"
    then have "(of_int k :: rat) + 1 \<le> of_int M" by (metis of_int_le_iff of_int_add of_int_1)
    moreover have kr: "(1::rat) \<le> of_int k" using k(2) by simp
    ultimately have *: "(of_int k + 1) * (of_int k + 1) \<le> (of_int M :: rat) * of_int M"
      by (intro square_mono_rat) simp_all
    have "(of_int k + 1 / 2) * (of_int k + 1 / 2) < (of_int k + 1) * (of_int k + 1 :: rat)"
      using kr by (simp add: algebra_simps)
    with * show False using k(4) unfolding N by linarith
  qed
  ultimately have "k = M" by linarith
  then have "of_int k * u = (of_int m / u) * u" by (simp only: Mu)
  also have "\<dots> = of_int m" using u by simp
  finally show ?thesis using k(1) unfolding x_def by simp
qed

lemma f32_sqrt_square:
  assumes "0 \<le> m" "m < 2 ^ 24"
  shows "map_option fl32 (js_sqrt (of_int (m * m))) = Some (of_int m)"
proof (cases "m = 0")
  case True
  then show ?thesis by (simp add: js_sqrt_zero fl32_zero)
next
  case False
  with assms(1) have m: "0 < m" by simp
  have "(2::int) ^ 24 \<le> 2 ^ 53" by simp
  with assms(2) have "m < 2 ^ 53" by linarith
  from js_sqrt_square[OF m this] fl32_int[of m] assms show ?thesis by simp
qed

lemma f32_sqrt_error:
  assumes "0 \<le> x"
  shows "\<exists>r. map_option fl32 (js_sqrt x) = Some r \<and> 0 \<le> r
    \<and> \<bar>real_of_rat r - sqrt (real_of_rat x)\<bar> \<le> sqrt (real_of_rat x) / 2 ^ 23"
proof (cases "x = 0")
  case True
  then show ?thesis by (simp add: js_sqrt_zero fl32_zero)
next
  case False
  with assms have x: "0 < x" by simp
  define S where "S = sqrt (real_of_rat x)"
  from js_sqrt_error[OF x] obtain r where r: "js_sqrt x = Some r" "0 < r"
    "\<bar>real_of_rat r - S\<bar> \<le> S / 2 ^ 53"
    unfolding S_def by blast
  have "\<bar>fl32 r - r\<bar> \<le> r / 2 powi (23 + 1)"
    unfolding fl32_nearest by (rule nearest_error[OF r(2)])
  then have "\<bar>fl32 r - r\<bar> \<le> r / 2 ^ 24" by simp
  then have "fl32 r \<le> r + r / 2 ^ 24" "r \<le> fl32 r + r / 2 ^ 24" by linarith+
  then have "real_of_rat (fl32 r) \<le> real_of_rat (r + r / 2 ^ 24)"
    "real_of_rat r \<le> real_of_rat (fl32 r + r / 2 ^ 24)"
    by (simp_all only: of_rat_less_eq)
  then have "real_of_rat (fl32 r) \<le> real_of_rat r + real_of_rat r / 2 ^ 24"
    "real_of_rat r \<le> real_of_rat (fl32 r) + real_of_rat r / 2 ^ 24"
    by (simp_all add: of_rat_add of_rat_divide of_rat_power of_rat_mult)
  then have e: "\<bar>real_of_rat (fl32 r) - real_of_rat r\<bar> \<le> real_of_rat r / 2 ^ 24"
    by linarith
  have S0: "0 \<le> S" using x by (simp add: S_def)
  from r(3) have "real_of_rat r \<le> S + S / 2 ^ 53" by linarith
  then have "real_of_rat r / 2 ^ 24 \<le> (S + S / 2 ^ 53) / 2 ^ 24"
    by (intro divide_right_mono) simp_all
  with e r(3) have "\<bar>real_of_rat (fl32 r) - S\<bar> \<le> (S + S / 2 ^ 53) / 2 ^ 24 + S / 2 ^ 53"
    by linarith
  also have "\<dots> \<le> S / 2 ^ 23" using S0 by simp
  finally have "\<bar>real_of_rat (fl32 r) - S\<bar> \<le> S / 2 ^ 23" .
  moreover have "0 \<le> fl32 r" using r(2) by (simp add: fl32_nonneg)
  ultimately show ?thesis using r(1) unfolding S_def by simp
qed


section \<open>Properties of sobelEdge\<close>

lemma interiorPixels_inj:
  "inj_on (\<lambda>(y, x). y * width + x) (set (interiorPixels width height))"
proof (rule inj_onI)
  fix a b :: "nat \<times> nat"
  obtain y x where a: "a = (y, x)" by (cases a)
  obtain y' x' where b: "b = (y', x')" by (cases b)
  assume m: "a \<in> set (interiorPixels width height)" "b \<in> set (interiorPixels width height)"
    and "(case a of (y, x) \<Rightarrow> y * width + x) = (case b of (y, x) \<Rightarrow> y * width + x)"
  then have e: "y * width + x = y' * width + x'"
    by (simp add: a b)
  from m have x: "x < width" "x' < width"
    by (auto simp: interiorPixels_def a b)
  from rowcol_inj[OF x e] show "a = b" by (simp add: a b)
qed

lemma map_loop_length:
  "length (fold (\<lambda>y. fold (\<lambda>x d. d[y * width + x := val y x]) [1..<width - 1])
             [1..<height - 1] d) = length d"
  unfolding fold_fold_product
  using fold_store_length[of "\<lambda>(y, x). y * width + x" "\<lambda>(y, x). val y x"]
  by (simp add: case_prod_unfold)

lemma map_loop_hit:
  assumes "0 < x" "x < width - 1" "0 < y" "y < height - 1" "y * width + x < length d"
  shows "fold (\<lambda>y. fold (\<lambda>x d. d[y * width + x := val y x]) [1..<width - 1])
             [1..<height - 1] d ! (y * width + x) = val y x"
proof -
  let ?pos = "\<lambda>(y, x). y * width + x"
  have m: "(y, x) \<in> set (interiorPixels width height)"
    using assms(1-4) by (auto simp: interiorPixels_def)
  have "fold (\<lambda>a d. d[?pos a := (\<lambda>(y, x). val y x) a]) (interiorPixels width height) d ! ?pos (y, x)
        = (\<lambda>(y, x). val y x) (y, x)"
    using assms(5) by (intro fold_store_hit[OF interiorPixels_inj m]) simp
  then show ?thesis
    unfolding fold_fold_product interiorPixels_def by (simp add: case_prod_unfold)
qed

lemma map_loop_other:
  assumes "\<And>y x. 0 < x \<Longrightarrow> x < width - 1 \<Longrightarrow> 0 < y \<Longrightarrow> y < height - 1 \<Longrightarrow> j \<noteq> y * width + x"
  shows "fold (\<lambda>y. fold (\<lambda>x d. d[y * width + x := val y x]) [1..<width - 1])
             [1..<height - 1] d ! j = d ! j"
proof -
  let ?pos = "\<lambda>(y, x). y * width + x"
  have "j \<notin> ?pos ` set (interiorPixels width height)"
  proof
    assume "j \<in> ?pos ` set (interiorPixels width height)"
    then obtain y x where "(y, x) \<in> set (interiorPixels width height)" "j = y * width + x"
      by auto
    moreover from this(1) have "0 < x" "x < width - 1" "0 < y" "y < height - 1"
      by (auto simp: interiorPixels_def)
    ultimately show False using assms by blast
  qed
  then have "fold (\<lambda>a d. d[?pos a := (\<lambda>(y, x). val y x) a]) (interiorPixels width height) d ! j = d ! j"
    by (rule fold_store_other)
  then show ?thesis
    unfolding fold_fold_product interiorPixels_def by (simp add: case_prod_unfold)
qed

lemma js_mul_add_Some: "js_mul_add (Some a) (Some p) k = Some (a + uint p * k)"
  by (simp add: js_mul_add_def)

lemma convolve_kernelX:
  assumes "0 < x" "0 < y"
  shows "convolve kernelX data width x y =
         - uint (channel data width (x - 1) (y - 1) 0) + uint (channel data width (x + 1) (y - 1) 0)
         - 2 * uint (channel data width (x - 1) y 0) + 2 * uint (channel data width (x + 1) y 0)
         - uint (channel data width (x - 1) (y + 1) 0) + uint (channel data width (x + 1) (y + 1) 0)"
  using assms by (simp add: convolve_def kernelX_def eval_nat_numeral lessThan_Suc)

lemma convolve_kernelY:
  assumes "0 < x" "0 < y"
  shows "convolve kernelY data width x y =
         - uint (channel data width (x - 1) (y - 1) 0) - 2 * uint (channel data width x (y - 1) 0)
         - uint (channel data width (x + 1) (y - 1) 0)
         + uint (channel data width (x - 1) (y + 1) 0) + 2 * uint (channel data width x (y + 1) 0)
         + uint (channel data width (x + 1) (y + 1) 0)"
  using assms by (simp add: convolve_def kernelY_def eval_nat_numeral lessThan_Suc)

lemma sobelAcc_interior:
  assumes "length data = width * height * 4" "0 < x" "x < width - 1" "0 < y" "y < height - 1"
  shows "sobelAcc data width x y =
         (Some (convolve kernelX data width x y), Some (convolve kernelY data width x y), 9)"
proof -
  have "sobelAcc data width x y =
     (Some (0 + uint (channel data width (x - 1) (y - 1) 0) * sobelX ! 0
              + uint (channel data width x (y - 1) 0) * sobelX ! (0 + 1)
              + uint (channel data width (x + 1) (y - 1) 0) * sobelX ! (0 + 1 + 1)
              + uint (channel data width (x - 1) y 0) * sobelX ! (0 + 1 + 1 + 1)
              + uint (channel data width x y 0) * sobelX ! (0 + 1 + 1 + 1 + 1)
              + uint (channel data width (x + 1) y 0) * sobelX ! (0 + 1 + 1 + 1 + 1 + 1)
              + uint (channel data width (x - 1) (y + 1) 0) * sobelX ! (0 + 1 + 1 + 1 + 1 + 1 + 1)
              + uint (channel data width x (y + 1) 0) * sobelX ! (0 + 1 + 1 + 1 + 1 + 1 + 1 + 1)
              + uint (channel data width (x + 1) (y + 1) 0) * sobelX ! (0 + 1 + 1 + 1 + 1 + 1 + 1 + 1 + 1)),
      Some (0 + uint (channel data width (x - 1) (y - 1) 0) * sobelY ! 0
              + uint (channel data width x (y - 1) 0) * sobelY ! (0 + 1)
              + uint (channel data width (x + 1) (y - 1) 0) * sobelY ! (0 + 1 + 1)
              + uint (channel data width (x - 1) y 0) * sobelY ! (0 + 1 + 1 + 1)
              + uint (channel data width x y 0) * sobelY ! (0 + 1 + 1 + 1 + 1)
              + uint (channel data width (x + 1) y 0) * sobelY ! (0 + 1 + 1 + 1 + 1 + 1)
              + uint (channel data width (x - 1) (y + 1) 0) * sobelY ! (0 + 1 + 1 + 1 + 1 + 1 + 1)
              + uint (channel data width x (y + 1) 0) * sobelY ! (0 + 1 + 1 + 1 + 1 + 1 + 1 + 1)
              + uint (channel data width (x + 1) (y + 1) 0) * sobelY ! (0 + 1 + 1 + 1 + 1 + 1 + 1 + 1 + 1)),
      0 + 1 + 1 + 1 + 1 + 1 + 1 + 1 + 1 + 1)"
    unfolding sobelAcc_def
    by (simp only: fold.simps comp_def id_def Let_def prod.case window_reads_red[OF assms]
          js_mul_add_Some)
  then show ?thesis
    unfolding convolve_kernelX[OF assms(2,4)] convolve_kernelY[OF assms(2,4)]
    by (simp add: sobelX_def sobelY_def)
qed



lemma sobelStep_store:
  "sobelStep data width y x =
   (\<lambda>m. m[y * width + x := map_option fl32 (js_magnitude (fst (sobelAcc data width x y))
                                         (fst (snd (sobelAcc data width x y))))])"
  by (rule ext) (simp add: sobelStep_def split: prod.split)

lemma sobelEdge_stores:
  "sobelEdge data width height =
   fold (\<lambda>y. fold (\<lambda>x m. m[y * width + x := map_option fl32 (js_magnitude (fst (sobelAcc data width x y))
                                         (fst (snd (sobelAcc data width x y))))]) [1..<width - 1])
     [1..<height - 1] (replicate (width * height) (Some 0))"
  unfolding sobelEdge_def Let_def sobelStep_store ..

lemma sobelEdge_length: "length (sobelEdge data width height) = width * height"
  unfolding sobelEdge_stores map_loop_length by simp

lemma sobelEdge_interior:
  assumes "length data = width * height * 4" "isInterior width height x y"
  shows "sobelEdge data width height ! (y * width + x)
         = map_option fl32 (js_sqrt (of_int ((convolve kernelX data width x y)\<^sup>2
                                             + (convolve kernelY data width x y)\<^sup>2)))"
proof -
  from assms(2) have i: "0 < x" "x < width - 1" "0 < y" "y < height - 1"
    by (simp_all add: isInterior_def)
  from i(2,4) have "y * width + x < width * height" by (intro rowcol_lt) simp_all
  then have "sobelEdge data width height ! (y * width + x)
     = map_option fl32 (js_magnitude (fst (sobelAcc data width x y))
         (fst (snd (sobelAcc data width x y))))"
    unfolding sobelEdge_stores using i by (intro map_loop_hit) simp_all
  then show ?thesis
    unfolding sobelAcc_interior[OF assms(1) i] by (simp add: js_magnitude_def power2_eq_square)
qed

lemma sobelEdge_border:
  assumes "isBorder width height x y"
  shows "sobelEdge data width height ! (y * width + x) = Some 0"
proof -
  from assms have b: "x < width" "y < height" by (simp_all add: isBorder_def)
  have "sobelEdge data width height ! (y * width + x)
        = replicate (width * height) (Some 0) ! (y * width + x)"
    unfolding sobelEdge_stores
  proof (rule map_loop_other)
    fix y' x' :: nat
    assume a: "0 < x'" "x' < width - 1" "0 < y'" "y' < height - 1"
    show "y * width + x \<noteq> y' * width + x'"
    proof
      assume "y * width + x = y' * width + x'"
      moreover from a(2) have "x' < width" by simp
      ultimately have "y = y'" "x = x'" using rowcol_inj b(1) by blast+
      with assms a show False by (auto simp: isBorder_def)
    qed
  qed
  moreover from b have "y * width + x < width * height" by (rule rowcol_lt)
  ultimately show ?thesis by simp
qed

lemma byte_range: "0 \<le> uint (b :: byte) \<and> uint b \<le> 255"
  using uint_lt2p[of b] by simp

lemma convolve_kernelX_bound:
  assumes "0 < x" "0 < y"
  shows "\<bar>convolve kernelX data width x y\<bar> \<le> 1020"
  unfolding convolve_kernelX[OF assms]
  using byte_range[of "channel data width (x - 1) (y - 1) 0"]
    byte_range[of "channel data width (x + 1) (y - 1) 0"]
    byte_range[of "channel data width (x - 1) y 0"]
    byte_range[of "channel data width (x + 1) y 0"]
    byte_range[of "channel data width (x - 1) (y + 1) 0"]
    byte_range[of "channel data width (x + 1) (y + 1) 0"]
  by linarith

lemma convolve_kernelY_bound:
  assumes "0 < x" "0 < y"
  shows "\<bar>convolve kernelY data width x y\<bar> \<le> 1020"
  unfolding convolve_kernelY[OF assms]
  using byte_range[of "channel data width (x - 1) (y - 1) 0"]
    byte_range[of "channel data width x (y - 1) 0"]
    byte_range[of "channel data width (x + 1) (y - 1) 0"]
    byte_range[of "channel data width (x - 1) (y + 1) 0"]
    byte_range[of "channel data width x (y + 1) 0"]
    byte_range[of "channel data width (x + 1) (y + 1) 0"]
  by linarith

lemma square_le_1020:
  fixes g :: int
  assumes "\<bar>g\<bar> \<le> 1020"
  shows "g\<^sup>2 \<le> 1040400"
proof -
  have "\<bar>g\<bar> \<le> \<bar>1020 :: int\<bar>" using assms by simp
  then have "g\<^sup>2 \<le> (1020 :: int)\<^sup>2" by (simp only: abs_le_square_iff)
  then show ?thesis by simp
qed

lemma root_small:
  fixes m :: int
  assumes "0 \<le> m" "m\<^sup>2 \<le> 2080800"
  shows "m < 2 ^ 24"
proof (rule ccontr)
  assume "\<not> m < 2 ^ 24"
  then have "1443 \<le> m" by simp
  then have "1443 * 1443 \<le> m * m" by (intro mult_mono) simp_all
  with assms(2) show False by (simp add: power2_eq_square)
qed

lemma sobelEdge_square:
  assumes "length data = width * height * 4" "isInterior width height x y"
    "0 \<le> m" "m\<^sup>2 = (convolve kernelX data width x y)\<^sup>2 + (convolve kernelY data width x y)\<^sup>2"
  shows "sobelEdge data width height ! (y * width + x) = Some (of_int m)"
proof -
  from assms(2) have i: "0 < x" "0 < y" by (simp_all add: isInterior_def)
  from square_le_1020[OF convolve_kernelX_bound[OF i, of data width]]
    square_le_1020[OF convolve_kernelY_bound[OF i, of data width]]
  have "m\<^sup>2 \<le> 2080800" unfolding assms(4) by linarith
  from root_small[OF assms(3) this] have "m < 2 ^ 24" .
  from f32_sqrt_square[OF assms(3) this] show ?thesis
    unfolding sobelEdge_interior[OF assms(1,2)] assms(4)[symmetric] by (simp add: power2_eq_square)
qed

lemma sobelEdge_close:
  assumes "length data = width * height * 4" "isInterior width height x y"
  shows "\<exists>r. sobelEdge data width height ! (y * width + x) = Some r \<and> 0 \<le> r
    \<and> \<bar>real_of_rat r - sqrt (of_int ((convolve kernelX data width x y)\<^sup>2
                                        + (convolve kernelY data width x y)\<^sup>2))\<bar>
       \<le> sqrt (of_int ((convolve kernelX data width x y)\<^sup>2
                         + (convolve kernelY data width x y)\<^sup>2)) / 2 ^ 23"
proof -
  define n where "n = (convolve kernelX data width x y)\<^sup>2 + (convolve kernelY data width x y)\<^sup>2"
  have "0 \<le> n" by (simp add: n_def)
  then have "(0::rat) \<le> of_int n" by simp
  from f32_sqrt_error[OF this] show ?thesis
    unfolding sobelEdge_interior[OF assms] n_def[symmetric] by simp
qed

lemma sqrt_147024: "js_sqrt 147024 = Some (843187072251517 / 2199023255552)"
  using js_sqrt_eqI[of 8 147024 6745496578012136] by simp

lemma fl32_sqrt_147024: "fl32 (843187072251517 / 2199023255552) = 6282233 / 16384"
  using nearest_eqI[of "843187072251517 / 2199023255552" 8 23 12564466]
  by (simp add: fl32_nearest)

lemma sqrt_147024_inexact: "real_of_rat (6282233 / 16384) \<noteq> sqrt (of_int (132\<^sup>2 + 360\<^sup>2))"
proof
  assume "real_of_rat (6282233 / 16384) = sqrt (of_int (132\<^sup>2 + 360\<^sup>2))"
  then have "(real_of_rat (6282233 / 16384))\<^sup>2 = (sqrt (of_int (132\<^sup>2 + 360\<^sup>2)))\<^sup>2" by simp
  then show False by (simp add: of_rat_divide power2_eq_square)
qed

lemma greyImage_gradients:
  "convolve kernelX greyImage 3 1 1 = 132" "convolve kernelY greyImage 3 1 1 = 360"
  by (simp_all add: convolve_kernelX convolve_kernelY channel_def greyImage_def)

lemma rampImage_gradients:
  "convolve kernelX rampImage 3 1 1 = 30" "convolve kernelY rampImage 3 1 1 = 40"
  by (simp_all add: convolve_kernelX convolve_kernelY channel_def rampImage_def)



section \<open>Properties of handleConvert\<close>

lemma convertWithAPI_unreachable: "convertWithAPI (Inr b) (Inl e) = Inl e"
  by (simp add: convertWithAPI_def)

lemma convertWithAPI_error_response:
  "\<not> ok r \<Longrightarrow> \<exists>e. convertWithAPI (Inr b) (Inr r) = Inl e"
  by (simp add: convertWithAPI_def Let_def)

lemma handleConvert_remote_failed:
  assumes "selectedFile st = Some file" "qualityMode st = HQ" "apiAvailable st = Some True"
    "convertWithAPI (apiBase64 w) (apiFetch w) = Inl e"
  shows "handleConvert w st =
     (case localRetry w of
        Inr dataUrl \<Rightarrow>
          (alert hqNotice (handleClear (st\<lparr>isConverting := True, consoleErrors := consoleErrors st @ [e],
              lineArtSrc := Some dataUrl\<rparr>)))\<lparr>isConverting := False\<rparr>
      | Inl _ \<Rightarrow> st\<lparr>isConverting := False, consoleErrors := consoleErrors st @ [e],
              alerts := alerts st @ [failedNotice]\<rparr>)"
  using assms by (simp add: handleConvert_def Let_def alert_def split: sum.splits)

lemma handleConvert_remote_ok:
  assumes "selectedFile st = Some file" "qualityMode st = HQ" "apiAvailable st = Some True"
    "convertWithAPI (apiBase64 w) (apiFetch w) = Inr u"
  shows "handleConvert w st = (handleClear (st\<lparr>isConverting := True, lineArtSrc := u\<rparr>))\<lparr>isConverting := False\<rparr>"
  using assms by (simp add: handleConvert_def Let_def)

lemma notices_differ: "hqNotice \<noteq> failedNotice"
  by (simp add: hqNotice_def failedNotice_def)

section \<open>The binarizer: claims\<close>

text \<open>
  C1 as the claim states it fails: on the map \<open>[117, 459]\<close> with threshold 65 the product
  \<open>(65 / 255) * 459\<close> is 117, which the magnitude 117 does not exceed, and the code paints
  the pixel black, because the cutoff it compares with is the product computed in doubles,
  the double just below 117.
\<close>

theorem thresholdEdges_exact_cutoff_counterexample:
  "thresholdEdges [Some 117, Some 459] 2 1 65 = Inr [0, 0, 0, 255, 0, 0, 0, 255]
   \<and> \<not> (117 :: rat) > (65 / 255) * 459"
proof -
  have "thresholdEdges [Some 117, Some 459] 2 1 65 = Inr [0, 0, 0, 255, 0, 0, 0, 255]"
    unfolding thresholdEdges_def Let_def maxMag_117_459 cutoff_65_459
    by (simp add: newImageData_def thresholdStep_def edgeColor_def js_gt_def f32_at_def
          fl32_117 fl32_459 Let_def) code_simp
  then show ?thesis by simp
qed

text \<open>
  C1, amended (binarizer contract). For a map of non-negative single precision magnitudes
  over a \<open>width \<times> height\<close> image, \<open>thresholdEdges\<close> returns a buffer of \<open>width * height\<close>
  pixels; the maximum it computes is the global maximum of the map; the cutoff is
  \<open>(threshold / 255) * maximum\<close> computed in doubles, the quotient rounded and the product
  rounded; pixel \<open>i\<close> is black \<open>(0,0,0,255)\<close> when its magnitude is greater than the cutoff
  and white \<open>(255,255,255,255)\<close> otherwise, so alpha is 255 everywhere. For a map that is
  zero everywhere the maximum is 0 and every pixel is white, whatever the threshold.
\<close>

theorem thresholdEdges_contract:
  assumes "0 < width" "0 < height" "length vs = width * height"
    "\<forall>v\<in>set vs. 0 \<le> v \<and> fl32 v = v"
  shows "\<exists>out. thresholdEdges (map Some vs) width height threshold = Inr out
           \<and> length out = width * height * 4
           \<and> maxMagLoop (map Some vs) = Max (set vs)
           \<and> (\<forall>i<width * height. rgba out i =
                 (if vs ! i > fl (fl (threshold / 255) * Max (set vs)) then black else white))
           \<and> ((\<forall>v\<in>set vs. v = 0) \<longrightarrow>
                 maxMagLoop (map Some vs) = 0 \<and> (\<forall>i<width * height. rgba out i = white))"
proof -
  from assms(1-3) have ne: "vs \<noteq> []" by auto
  from assms(4) have img: "fl32 ` set vs = set vs" by force
  have M: "maxMagLoop (map Some vs) = Max (set vs)"
    using maxMagLoop_map_Some[OF ne] assms(4) by (simp add: img)
  from assms(3) have len: "length (map Some vs) = width * height" by simp
  from thresholdEdges_pixels[OF assms(1,2) len, of threshold] obtain out where
    o: "thresholdEdges (map Some vs) width height threshold = Inr out"
       "length out = width * height * 4"
    and p: "\<And>i. i < width * height \<Longrightarrow> rgba out i =
                 (if js_gt (f32_at (map Some vs) i)
                       (fl (fl (threshold / 255) * maxMagLoop (map Some vs)))
                  then black else white)"
    by blast
  have q: "rgba out i = (if vs ! i > fl (fl (threshold / 255) * Max (set vs)) then black else white)"
    if "i < width * height" for i
  proof -
    from that assms(3) have "vs ! i \<in> set vs" by simp
    with assms(4) have "fl32 (vs ! i) = vs ! i" by blast
    with that assms(3) have "f32_at (map Some vs) i = Some (vs ! i)"
      by (simp add: f32_at_map_Some)
    with p[OF that] show ?thesis by (simp add: M js_gt_def)
  qed
  have flat: "Max (set vs) = 0 \<and> (\<forall>i<width * height. rgba out i = white)"
    if z: "\<forall>v\<in>set vs. v = 0"
  proof -
    from z ne have "set vs = {0}" by (cases vs) auto
    then have m0: "Max (set vs) = 0" by simp
    have "rgba out i = white" if "i < width * height" for i
    proof -
      from that assms(3) z have "vs ! i = 0" by simp
      with q[OF that] m0 show ?thesis by (simp add: fl_zero)
    qed
    with m0 show ?thesis by blast
  qed
  show ?thesis
  proof (intro exI[of _ out] conjI allI impI)
    show "thresholdEdges (map Some vs) width height threshold = Inr out" by (rule o(1))
    show "length out = width * height * 4" by (rule o(2))
    show "maxMagLoop (map Some vs) = Max (set vs)" by (rule M)
    show "rgba out i = (if vs ! i > fl (fl (threshold / 255) * Max (set vs)) then black else white)"
      if "i < width * height" for i by (rule q[OF that])
    show "maxMagLoop (map Some vs) = 0" if "\<forall>v\<in>set vs. v = 0"
      using flat[OF that] M by simp
    show "rgba out i = white" if "\<forall>v\<in>set vs. v = 0" "i < width * height" for i
      using flat[OF that(1)] that(2) by simp
  qed
qed

theorem thresholdEdges_contract_witness:
  "(0 < (2::nat) \<and> 0 < (1::nat) \<and> length [117, 459::rat] = 2 * 1
    \<and> (0::rat) \<le> 117 \<and> fl32 117 = 117 \<and> (0::rat) \<le> 459 \<and> fl32 459 = 459
    \<and> (\<exists>out. thresholdEdges (map Some [117, 459]) 2 1 65 = Inr out
           \<and> length out = 2 * 1 * 4
           \<and> maxMagLoop (map Some [117, 459]) = Max (set [117, 459])
           \<and> (\<forall>i<2 * 1. rgba out i =
                 (if [117, 459] ! i > fl (fl (65 / 255) * Max (set [117, 459])) then black else white))))
   \<and> (0 < (2::nat) \<and> 0 < (1::nat) \<and> length [0, 0::rat] = 2 * 1 \<and> (0::rat) \<le> 0 \<and> fl32 0 = 0
    \<and> (\<exists>out. thresholdEdges (map Some [0, 0]) 2 1 0 = Inr out
           \<and> maxMagLoop (map Some [0, 0]) = 0 \<and> (\<forall>i<2 * 1. rgba out i = white)))"
proof -
  have h: "\<forall>v\<in>set [117, 459::rat]. 0 \<le> v \<and> fl32 v = v"
    by (simp add: fl32_117 fl32_459)
  have z: "\<forall>v\<in>set [0, 0::rat]. 0 \<le> v \<and> fl32 v = v"
    by (simp add: fl32_zero)
  from thresholdEdges_contract[of 2 1 "[117, 459]" 65, OF _ _ _ h]
  have a: "\<exists>out. thresholdEdges (map Some [117, 459]) 2 1 65 = Inr out
           \<and> length out = 2 * 1 * 4
           \<and> maxMagLoop (map Some [117, 459]) = Max (set [117, 459])
           \<and> (\<forall>i<2 * 1. rgba out i =
                 (if [117, 459] ! i > fl (fl (65 / 255) * Max (set [117, 459])) then black else white))"
    by fastforce
  from thresholdEdges_contract[of 2 1 "[0, 0]" 0, OF _ _ _ z]
  have b: "\<exists>out. thresholdEdges (map Some [0, 0]) 2 1 0 = Inr out
           \<and> maxMagLoop (map Some [0, 0]) = 0 \<and> (\<forall>i<2 * 1. rgba out i = white)"
    by fastforce
  from a b show ?thesis by (simp add: fl32_117 fl32_459 fl32_zero)
qed

text \<open>
  C2 as the claim states it fails at threshold 255: on the map \<open>[0, 5]\<close> the global
  maximum sits at pixel 1, and pixel 1 is white, not black.
\<close>

theorem threshold_255_max_pixel_counterexample:
  "thresholdEdges [Some 0, Some 5] 2 1 255 = Inr [255, 255, 255, 255, 255, 255, 255, 255]
   \<and> [Some 0, Some (5::rat)] ! 1 = Some (Max {0, 5})
   \<and> rgba [255, 255, 255, 255, 255, 255, 255, 255] 1 \<noteq> black"
proof -
  have "thresholdEdges [Some 0, Some 5] 2 1 255 = Inr [255, 255, 255, 255, 255, 255, 255, 255]"
    unfolding thresholdEdges_def Let_def cutoff_255 maxMag_0_5
    by (simp add: newImageData_def thresholdStep_def edgeColor_def js_gt_def f32_at_def
          fl32_zero fl32_5 Let_def) code_simp
  moreover have "rgba [255, 255, 255, 255, 255, 255, 255, 255] 1 \<noteq> black"
    by code_simp
  ultimately show ?thesis by simp
qed

text \<open>
  C2, amended (threshold extremes). With threshold 0 every pixel of positive magnitude is
  black, so a map with at least one positive magnitude gives at least one black pixel. With
  threshold 255 the cutoff equals the maximum the loop computed, and no pixel is black: no
  black pixel lies off the global maximum, and none lies on it either.
\<close>

theorem threshold_extremes:
  assumes "0 < width" "0 < height" "length magnitude = width * height"
  shows "\<exists>out0 out255.
           thresholdEdges magnitude width height 0 = Inr out0
         \<and> thresholdEdges magnitude width height 255 = Inr out255
         \<and> (\<forall>i<width * height. \<forall>v. magnitude ! i = Some v \<and> 0 < v \<longrightarrow> rgba out0 i = black)
         \<and> ((\<exists>i<width * height. \<exists>v. magnitude ! i = Some v \<and> 0 < v) \<longrightarrow>
              (\<exists>i<width * height. rgba out0 i = black))
         \<and> fl (fl (255 / 255) * maxMagLoop magnitude) = maxMagLoop magnitude
         \<and> (\<forall>i<width * height. rgba out255 i = white \<and> rgba out255 i \<noteq> black)"
proof -
  from thresholdEdges_pixels[OF assms, of 0] obtain out0 where
    o0: "thresholdEdges magnitude width height 0 = Inr out0"
    and p0: "\<And>i. i < width * height \<Longrightarrow> rgba out0 i =
                 (if js_gt (f32_at magnitude i) (fl (fl (0 / 255) * maxMagLoop magnitude))
                  then black else white)"
    by blast
  from thresholdEdges_pixels[OF assms, of 255] obtain out255 where
    o1: "thresholdEdges magnitude width height 255 = Inr out255"
    and p1: "\<And>i. i < width * height \<Longrightarrow> rgba out255 i =
                 (if js_gt (f32_at magnitude i) (fl (fl (255 / 255) * maxMagLoop magnitude))
                  then black else white)"
    by blast
  have a: "rgba out0 i = black" if "i < width * height" "magnitude ! i = Some v" "0 < v" for i v
    using p0[OF that(1)] that(2) fl32_pos[OF that(3)]
    unfolding cutoff_0 by (simp add: js_gt_def f32_at_def)
  have b: "rgba out255 i = white \<and> rgba out255 i \<noteq> black" if "i < width * height" for i
    using p1[OF that] js_gt_maxMagLoop[of i magnitude] that assms(3) black_neq_white
    unfolding cutoff_255 by simp
  have c: "fl (fl (255 / 255) * maxMagLoop magnitude) = maxMagLoop magnitude"
    by (rule cutoff_255)
  from o0 o1 a b c show ?thesis by (intro exI[of _ out0] exI[of _ out255]) auto
qed

theorem threshold_extremes_witness:
  "0 < (2::nat) \<and> 0 < (1::nat) \<and> length [Some 0, Some (5::rat)] = 2 * 1
   \<and> (1 < (2::nat) * 1 \<and> [Some 0, Some (5::rat)] ! 1 = Some 5 \<and> (0::rat) < 5)
   \<and> (\<exists>out0 out255.
           thresholdEdges [Some 0, Some 5] 2 1 0 = Inr out0
         \<and> thresholdEdges [Some 0, Some 5] 2 1 255 = Inr out255
         \<and> rgba out0 1 = black
         \<and> (\<exists>i<2 * 1. rgba out0 i = black)
         \<and> (\<forall>i<2 * 1. rgba out255 i = white \<and> rgba out255 i \<noteq> black))"
proof -
  have h: "\<exists>i<2 * 1. \<exists>v. [Some 0, Some (5::rat)] ! i = Some v \<and> 0 < v"
    by (intro exI[of _ 1]) simp
  from threshold_extremes[of 2 1 "[Some 0, Some 5]"] obtain out0 out255 where
    r: "thresholdEdges [Some 0, Some 5] 2 1 0 = Inr out0"
       "thresholdEdges [Some 0, Some 5] 2 1 255 = Inr out255"
       "\<forall>i<2 * 1. \<forall>v. [Some 0, Some (5::rat)] ! i = Some v \<and> 0 < v \<longrightarrow> rgba out0 i = black"
       "(\<exists>i<2 * 1. \<exists>v. [Some 0, Some (5::rat)] ! i = Some v \<and> 0 < v) \<longrightarrow>
              (\<exists>i<2 * 1. rgba out0 i = black)"
       "\<forall>i<2 * 1. rgba out255 i = white \<and> rgba out255 i \<noteq> black"
    by auto
  from r(3) have "rgba out0 1 = black" by simp
  with r h show ?thesis by auto
qed


text \<open>
  C3 (threshold monotonicity). For a fixed map and thresholds \<open>t1 \<le> t2\<close>, the output at
  \<open>t2\<close> has at most as many black pixels as the output at \<open>t1\<close>.
\<close>

theorem threshold_monotone:
  assumes "0 < width" "0 < height" "length magnitude = width * height" "t1 \<le> t2"
  shows "\<exists>out1 out2. thresholdEdges magnitude width height t1 = Inr out1
           \<and> thresholdEdges magnitude width height t2 = Inr out2
           \<and> blackCount out2 \<le> blackCount out1"
proof -
  let ?M = "maxMagLoop magnitude"
  from thresholdEdges_pixels[OF assms(1-3), of t1] obtain out1 where
    o1: "thresholdEdges magnitude width height t1 = Inr out1" "length out1 = width * height * 4"
    and p1: "\<And>i. i < width * height \<Longrightarrow> rgba out1 i =
                 (if js_gt (f32_at magnitude i) (fl (fl (t1 / 255) * ?M)) then black else white)"
    by blast
  from thresholdEdges_pixels[OF assms(1-3), of t2] obtain out2 where
    o2: "thresholdEdges magnitude width height t2 = Inr out2" "length out2 = width * height * 4"
    and p2: "\<And>i. i < width * height \<Longrightarrow> rgba out2 i =
                 (if js_gt (f32_at magnitude i) (fl (fl (t2 / 255) * ?M)) then black else white)"
    by blast
  have cut: "fl (fl (t1 / 255) * ?M) \<le> fl (fl (t2 / 255) * ?M)"
    using assms(4) maxMagLoop_nonneg[of magnitude] by (rule cutoff_mono)
  have imp: "rgba out1 i = black" if "i < width * height" "rgba out2 i = black" for i
  proof -
    from that p2 have "js_gt (f32_at magnitude i) (fl (fl (t2 / 255) * ?M))"
      using black_neq_white by (auto split: if_splits)
    with cut have "js_gt (f32_at magnitude i) (fl (fl (t1 / 255) * ?M))"
      by (auto simp: js_gt_def split: option.splits)
    with p1 that show ?thesis by simp
  qed
  have "blackCount out2 \<le> blackCount out1"
    unfolding blackCount_def o1(2) o2(2)
    by (rule filter_length_mono) (use imp in auto)
  with o1 o2 show ?thesis by blast
qed

theorem threshold_monotone_witness:
  "0 < (2::nat) \<and> 0 < (1::nat) \<and> length [Some 3, Some (5::rat)] = 2 * 1 \<and> (10::rat) \<le> 200
   \<and> (\<exists>out1 out2. thresholdEdges [Some 3, Some 5] 2 1 10 = Inr out1
           \<and> thresholdEdges [Some 3, Some 5] 2 1 200 = Inr out2
           \<and> blackCount out2 \<le> blackCount out1)"
  using threshold_monotone[of 2 1 "[Some 3, Some 5]" 10 200] by simp

text \<open>
  C10 (maximum threshold). With threshold 255 the output of \<open>thresholdEdges\<close> is white at
  every pixel, for every map, also one with non-zero magnitudes: the comparison with the
  cutoff is strict and the cutoff is the maximum (\<open>255 / 255\<close> is 1 and the product of 1
  with a single precision number is that number, in doubles as well).
\<close>

theorem threshold_255_all_white:
  assumes "0 < width" "0 < height" "length magnitude = width * height"
  shows "\<exists>out. thresholdEdges magnitude width height 255 = Inr out
           \<and> length out = width * height * 4
           \<and> (\<forall>i<width * height. rgba out i = white)"
proof -
  from thresholdEdges_pixels[OF assms, of 255] obtain out where
    o: "thresholdEdges magnitude width height 255 = Inr out" "length out = width * height * 4"
    and p: "\<And>i. i < width * height \<Longrightarrow> rgba out i =
                 (if js_gt (f32_at magnitude i) (fl (fl (255 / 255) * maxMagLoop magnitude))
                  then black else white)"
    by blast
  have "rgba out i = white" if "i < width * height" for i
    using p[OF that] js_gt_maxMagLoop[of i magnitude] that assms(3)
    unfolding cutoff_255 by simp
  with o show ?thesis by blast
qed

theorem threshold_255_all_white_witness:
  "0 < (2::nat) \<and> 0 < (1::nat) \<and> length [Some 3, Some (5::rat)] = 2 * 1
   \<and> (\<exists>out. thresholdEdges [Some 3, Some 5] 2 1 255 = Inr out
           \<and> length out = 2 * 1 * 4
           \<and> (\<forall>i<2 * 1. rgba out i = white))"
  using threshold_255_all_white[of 2 1 "[Some 3, Some 5]"] by simp

section \<open>The dilator: claims\<close>

text \<open>
  C7 (dilator contract). On a buffer of \<open>width \<times> height\<close> pixels one pass of \<open>dilate\<close> keeps
  the length and replaces the red, green and blue channel of every interior pixel with the
  minimum of the nine red samples of its 3x3 neighbourhood, read from the buffer as it was
  before the pass; so an interior pixel with a zero (black) red sample in its neighbourhood,
  itself included, gets the three channels 0. Every channel of a border pixel and every
  alpha value is left as it was. The loop applies the pass \<open>thickness\<close> times, one after the
  other, and zero times leaves the buffer unchanged.
\<close>

theorem dilate_contract:
  assumes "length data = width * height * 4"
  shows "length (dilate data width height) = length data
    \<and> (\<forall>x y c. isInterior width height x y \<and> c < 3 \<longrightarrow>
          channel (dilate data width height) width x y c = Min (set (samples data width x y 0)))
    \<and> (\<forall>x y c. isInterior width height x y \<and> c < 3 \<and> 0 \<in> set (samples data width x y 0) \<longrightarrow>
          channel (dilate data width height) width x y c = 0)
    \<and> (\<forall>x y c. isBorder width height x y \<and> c < 4 \<longrightarrow>
          channel (dilate data width height) width x y c = channel data width x y c)
    \<and> (\<forall>p. dilate data width height ! (p * 4 + 3) = data ! (p * 4 + 3))
    \<and> dilateLoop 0 data width height = data
    \<and> (\<forall>n. dilateLoop (Suc n) data width height
             = dilate (dilateLoop n data width height) width height)"
proof (intro conjI allI impI)
  show "length (dilate data width height) = length data" by (rule dilate_length)
next
  fix x y c :: nat assume "isInterior width height x y \<and> c < 3"
  then show "channel (dilate data width height) width x y c = Min (set (samples data width x y 0))"
    using dilate_interior[OF assms] by blast
next
  fix x y c :: nat assume a: "isInterior width height x y \<and> c < 3 \<and> 0 \<in> set (samples data width x y 0)"
  then have "channel (dilate data width height) width x y c = Min (set (samples data width x y 0))"
    using dilate_interior[OF assms] by blast
  with a show "channel (dilate data width height) width x y c = 0"
    by (simp add: Min_zero_byte)
next
  fix x y c :: nat assume "isBorder width height x y \<and> c < 4"
  then show "channel (dilate data width height) width x y c = channel data width x y c"
    using dilate_border by blast
next
  fix p show "dilate data width height ! (p * 4 + 3) = data ! (p * 4 + 3)" by (rule dilate_alpha)
next
  show "dilateLoop 0 data width height = data" by (rule dilateLoop_0)
next
  fix n show "dilateLoop (Suc n) data width height = dilate (dilateLoop n data width height) width height"
    by (rule dilateLoop_Suc)
qed

theorem dilate_contract_witness:
  "length cornerImage = 3 * 3 * 4 \<and> isInterior 3 3 1 1 \<and> (2::nat) < 3
   \<and> 0 \<in> set (samples cornerImage 3 1 1 0) \<and> isBorder 3 3 2 0 \<and> (1::nat) < 4
   \<and> channel (dilate cornerImage 3 3) 3 1 1 2 = Min (set (samples cornerImage 3 1 1 0))
   \<and> channel (dilate cornerImage 3 3) 3 1 1 2 = 0
   \<and> channel (dilate cornerImage 3 3) 3 2 0 1 = channel cornerImage 3 2 0 1
   \<and> dilateLoop (Suc 1) cornerImage 3 3 = dilate (dilateLoop 1 cornerImage 3 3) 3 3"
proof -
  have h: "length cornerImage = 3 * 3 * 4" "isInterior 3 3 1 1" "(2::nat) < 3"
     "0 \<in> set (samples cornerImage 3 1 1 0)" "isBorder 3 3 2 0" "(1::nat) < 4"
    by code_simp+
  with dilate_contract[OF h(1)] show ?thesis by blast
qed

text \<open>
  C8 (pure black and white). Every pixel of the output of \<open>thresholdEdges\<close> is pure black
  \<open>(0,0,0,255)\<close> or pure white \<open>(255,255,255,255)\<close>; one pass of \<open>dilate\<close> over any buffer
  of such pixels, whatever the width and height it is given, again yields only such pixels;
  so the output after any number of dilation passes holds only these two pixel values.
\<close>

theorem pure_black_white_invariant:
  assumes "0 < width" "0 < height" "length magnitude = width * height"
  shows "\<exists>out. thresholdEdges magnitude width height threshold = Inr out
           \<and> pureBW out
           \<and> (\<forall>data w h. pureBW data \<longrightarrow> pureBW (dilate data w h))
           \<and> (\<forall>thickness. pureBW (dilateLoop thickness out width height))"
proof -
  from thresholdEdges_pureBW[OF assms, of threshold] obtain out where
    o: "thresholdEdges magnitude width height threshold = Inr out" "pureBW out" by blast
  then show ?thesis using dilate_pureBW dilateLoop_pureBW by blast
qed

theorem pure_black_white_invariant_witness:
  "0 < (3::nat) \<and> 0 < (3::nat)
   \<and> length [Some 0, Some 0, Some 7, Some 0, Some 0, Some 0, Some 0, Some 0, Some (0::rat)] = 3 * 3
   \<and> pureBW cornerImage
   \<and> thresholdEdges [Some 0, Some 0, Some 7, Some 0, Some 0, Some 0, Some 0, Some 0, Some 0] 3 3 50
       = Inr cornerImage
   \<and> pureBW (dilate cornerImage 3 3)
   \<and> pureBW (dilateLoop 2 cornerImage 3 3)"
proof -
  have e: "thresholdEdges [Some 0, Some 0, Some 7, Some 0, Some 0, Some 0, Some 0, Some 0, Some 0] 3 3 50
       = Inr cornerImage"
    unfolding thresholdEdges_def Let_def maxMag_corner cutoff_50_7 cornerImage_def
    by (simp add: newImageData_def thresholdStep_def edgeColor_def js_gt_def f32_at_def
          fl32_zero fl32_7 Let_def) code_simp
  from pure_black_white_invariant[of 3 3 "[Some 0, Some 0, Some 7, Some 0, Some 0, Some 0, Some 0, Some 0, Some 0]" 50]
  show ?thesis unfolding e by auto
qed

section \<open>The blur filter: claims\<close>

text \<open>
  C6 (box blur contract). On a buffer of \<open>width \<times> height\<close> pixels one pass of \<open>boxBlur\<close>
  keeps the length and replaces the red, green and blue channel of every interior pixel
  with the unweighted mean of the nine samples of that channel in its 3x3 neighbourhood,
  read from the buffer as it was before the pass and converted to a byte by the store
  (clamped to 0..255 and rounded to the nearest integer, which is \<open>(sum + 4) div 9\<close>).
  Every channel of a border pixel and every alpha value is left as it was. The loop applies
  the pass \<open>blurPasses\<close> times, one after the other, and zero times leaves the buffer
  unchanged.
\<close>

theorem boxBlur_contract:
  assumes "length data = width * height * 4"
  shows "length (boxBlur data width height) = length data
    \<and> (\<forall>x y c. isInterior width height x y \<and> c < 3 \<longrightarrow>
          length (samples data width x y c) = 9
        \<and> channel (boxBlur data width height) width x y c
            = toUint8Clamp (Some (mean (samples data width x y c)))
        \<and> channel (boxBlur data width height) width x y c
            = word_of_int ((sum_list (map uint (samples data width x y c)) + 4) div 9))
    \<and> (\<forall>x y c. isBorder width height x y \<and> c < 4 \<longrightarrow>
          channel (boxBlur data width height) width x y c = channel data width x y c)
    \<and> (\<forall>p. boxBlur data width height ! (p * 4 + 3) = data ! (p * 4 + 3))
    \<and> blurLoop 0 data width height = data
    \<and> (\<forall>n. blurLoop (Suc n) data width height
             = boxBlur (blurLoop n data width height) width height)"
proof (intro conjI allI impI)
  show "length (boxBlur data width height) = length data" by (rule boxBlur_length)
next
  fix x y c :: nat assume "isInterior width height x y \<and> c < 3"
  show "length (samples data width x y c) = 9" by (rule samples_length)
next
  fix x y c :: nat assume "isInterior width height x y \<and> c < 3"
  then show "channel (boxBlur data width height) width x y c
            = toUint8Clamp (Some (mean (samples data width x y c)))"
    using boxBlur_interior(1)[OF assms] by blast
next
  fix x y c :: nat assume "isInterior width height x y \<and> c < 3"
  then show "channel (boxBlur data width height) width x y c
            = word_of_int ((sum_list (map uint (samples data width x y c)) + 4) div 9)"
    using boxBlur_interior(2)[OF assms] by blast
next
  fix x y c :: nat assume "isBorder width height x y \<and> c < 4"
  then show "channel (boxBlur data width height) width x y c = channel data width x y c"
    using boxBlur_border by blast
next
  fix p show "boxBlur data width height ! (p * 4 + 3) = data ! (p * 4 + 3)" by (rule boxBlur_alpha)
next
  show "blurLoop 0 data width height = data" by (rule blurLoop_0)
next
  fix n show "blurLoop (Suc n) data width height = boxBlur (blurLoop n data width height) width height"
    by (rule blurLoop_Suc)
qed

theorem boxBlur_contract_witness:
  "length colourImage = 3 * 3 * 4 \<and> isInterior 3 3 1 1 \<and> (1::nat) < 3
   \<and> isBorder 3 3 2 2 \<and> (0::nat) < 4
   \<and> samples colourImage 3 1 1 1 = [20, 50, 80, 2, 5, 8, 110, 140, 170]
   \<and> channel (boxBlur colourImage 3 3) 3 1 1 1
        = toUint8Clamp (Some (mean (samples colourImage 3 1 1 1)))
   \<and> channel (boxBlur colourImage 3 3) 3 1 1 1 = 65
   \<and> channel (boxBlur colourImage 3 3) 3 2 2 0 = channel colourImage 3 2 2 0
   \<and> blurLoop (Suc 1) colourImage 3 3 = boxBlur (blurLoop 1 colourImage 3 3) 3 3"
proof -
  have h: "length colourImage = 3 * 3 * 4" "isInterior 3 3 1 1" "(1::nat) < 3"
     "isBorder 3 3 2 2" "(0::nat) < 4"
     "samples colourImage 3 1 1 1 = [20, 50, 80, 2, 5, 8, 110, 140, 170]"
    by code_simp+
  have v: "word_of_int ((sum_list (map uint [20, 50, 80, 2, 5, 8, 110, 140, 170 :: byte]) + 4) div 9)
           = (65 :: byte)"
    by code_simp
  note t = boxBlur_contract[OF h(1)]
  from t h(2,3) have a: "channel (boxBlur colourImage 3 3) 3 1 1 1
        = toUint8Clamp (Some (mean (samples colourImage 3 1 1 1)))"
    by blast
  from t h(2,3) have "channel (boxBlur colourImage 3 3) 3 1 1 1
        = word_of_int ((sum_list (map uint (samples colourImage 3 1 1 1)) + 4) div 9)"
    by blast
  then have b: "channel (boxBlur colourImage 3 3) 3 1 1 1 = 65"
    unfolding h(6) v .
  from t h(4,5) have c: "channel (boxBlur colourImage 3 3) 3 2 2 0 = channel colourImage 3 2 2 0"
    by blast
  from t have d: "blurLoop (Suc 1) colourImage 3 3 = boxBlur (blurLoop 1 colourImage 3 3) 3 3"
    by blast
  from h a b c d show ?thesis by (intro conjI)
qed

section \<open>The edge detector: claims\<close>

text \<open>
  C5 as the specification states it, with the square root read as the real one, fails. On
  the grey 3x3 image \<open>greyImage\<close> the gradients at the centre pixel are \<open>gx = 132\<close> and
  \<open>gy = 360\<close>, and the entry of the centre pixel in the map is the single precision number
  \<open>6282233 / 16384 = 383.43707275390625\<close>, which is not \<open>sqrt (132\<^sup>2 + 360\<^sup>2)\<close>:
  \<^verbatim>\<open>Math.sqrt\<close> rounds the root to a double, and the store into the \<^verbatim>\<open>Float32Array\<close> rounds
  it again to single precision.
\<close>

theorem sobelEdge_real_sqrt_counterexample:
  "length greyImage = 3 * 3 * 4 \<and> isInterior 3 3 1 1
   \<and> convolve kernelX greyImage 3 1 1 = 132 \<and> convolve kernelY greyImage 3 1 1 = 360
   \<and> sobelEdge greyImage 3 3 ! (1 * 3 + 1) = Some (6282233 / 16384)
   \<and> real_of_rat (6282233 / 16384) \<noteq> sqrt (of_int (132\<^sup>2 + 360\<^sup>2))"
proof -
  have h: "length greyImage = 3 * 3 * 4" "isInterior 3 3 1 1"
    by code_simp+
  have "sobelEdge greyImage 3 3 ! (1 * 3 + 1)
        = map_option fl32 (js_sqrt (of_int ((convolve kernelX greyImage 3 1 1)\<^sup>2
                                            + (convolve kernelY greyImage 3 1 1)\<^sup>2)))"
    by (rule sobelEdge_interior[OF h])
  then have "sobelEdge greyImage 3 3 ! (1 * 3 + 1) = Some (6282233 / 16384)"
    unfolding greyImage_gradients by (simp add: sqrt_147024 fl32_sqrt_147024)
  with h greyImage_gradients sqrt_147024_inexact show ?thesis by (intro conjI)
qed

text \<open>
  C5, amended (edge detector contract). On a buffer of \<open>width \<times> height\<close> pixels \<open>sobelEdge\<close>
  returns a map with one entry per pixel. Let \<open>gx\<close> and \<open>gy\<close> be the red channel convolved
  with the kernels \<open>[[-1,0,1],[-2,0,2],[-1,0,1]]\<close> and \<open>[[-1,-2,-1],[0,0,0],[1,2,1]]\<close> at an
  interior pixel. The entry of that pixel is the square root of \<open>gx\<^sup>2 + gy\<^sup>2\<close> rounded to a
  double and then to single precision. It is a non-negative number that differs from the
  real \<open>sqrt (gx\<^sup>2 + gy\<^sup>2)\<close> by at most that root divided by \<open>2\<^sup>2\<^sup>3\<close>, and it is the root
  itself whenever \<open>gx\<^sup>2 + gy\<^sup>2\<close> is the square of an integer. The entry of every pixel of the
  outermost ring is 0. (For a width or height below 3 there is no interior pixel.)
\<close>

theorem sobelEdge_contract:
  assumes "length data = width * height * 4"
  shows "length (sobelEdge data width height) = width * height
    \<and> (\<forall>x y. isInterior width height x y \<longrightarrow>
          sobelEdge data width height ! (y * width + x)
          = map_option fl32 (js_sqrt (of_int ((convolve kernelX data width x y)\<^sup>2
                                              + (convolve kernelY data width x y)\<^sup>2)))
          \<and> (\<exists>r. sobelEdge data width height ! (y * width + x) = Some r \<and> 0 \<le> r
                \<and> \<bar>real_of_rat r - sqrt (of_int ((convolve kernelX data width x y)\<^sup>2
                                                    + (convolve kernelY data width x y)\<^sup>2))\<bar>
                   \<le> sqrt (of_int ((convolve kernelX data width x y)\<^sup>2
                                     + (convolve kernelY data width x y)\<^sup>2)) / 2 ^ 23)
          \<and> (\<forall>m. 0 \<le> m \<and> m\<^sup>2 = (convolve kernelX data width x y)\<^sup>2
                                    + (convolve kernelY data width x y)\<^sup>2 \<longrightarrow>
                sobelEdge data width height ! (y * width + x) = Some (of_int m)))
    \<and> (\<forall>x y. isBorder width height x y \<longrightarrow>
          sobelEdge data width height ! (y * width + x) = Some 0)"
proof (intro conjI allI impI)
  show "length (sobelEdge data width height) = width * height"
    by (rule sobelEdge_length)
next
  fix x y
  assume "isInterior width height x y"
  then show "sobelEdge data width height ! (y * width + x)
          = map_option fl32 (js_sqrt (of_int ((convolve kernelX data width x y)\<^sup>2
                                              + (convolve kernelY data width x y)\<^sup>2)))"
    by (rule sobelEdge_interior[OF assms])
next
  fix x y
  assume "isInterior width height x y"
  then show "\<exists>r. sobelEdge data width height ! (y * width + x) = Some r \<and> 0 \<le> r
                \<and> \<bar>real_of_rat r - sqrt (of_int ((convolve kernelX data width x y)\<^sup>2
                                                    + (convolve kernelY data width x y)\<^sup>2))\<bar>
                   \<le> sqrt (of_int ((convolve kernelX data width x y)\<^sup>2
                                     + (convolve kernelY data width x y)\<^sup>2)) / 2 ^ 23"
    by (rule sobelEdge_close[OF assms])
next
  fix x y m
  assume "isInterior width height x y"
    and "0 \<le> m \<and> m\<^sup>2 = (convolve kernelX data width x y)\<^sup>2
                          + (convolve kernelY data width x y)\<^sup>2"
  then show "sobelEdge data width height ! (y * width + x) = Some (of_int m)"
    using sobelEdge_square[OF assms] by blast
next
  fix x y
  assume "isBorder width height x y"
  then show "sobelEdge data width height ! (y * width + x) = Some 0"
    by (rule sobelEdge_border)
qed

theorem sobelEdge_contract_witness:
  "length rampImage = 3 * 3 * 4 \<and> isInterior 3 3 1 1 \<and> isBorder 3 3 0 2
   \<and> convolve kernelX rampImage 3 1 1 = 30 \<and> convolve kernelY rampImage 3 1 1 = 40
   \<and> (0::int) \<le> 50 \<and> (50::int)\<^sup>2 = 30\<^sup>2 + 40\<^sup>2
   \<and> length (sobelEdge rampImage 3 3) = 3 * 3
   \<and> sobelEdge rampImage 3 3 ! (1 * 3 + 1) = map_option fl32 (js_sqrt (of_int (30\<^sup>2 + 40\<^sup>2)))
   \<and> sobelEdge rampImage 3 3 ! (1 * 3 + 1) = Some 50
   \<and> sobelEdge rampImage 3 3 ! (2 * 3 + 0) = Some 0"
proof -
  have h: "length rampImage = 3 * 3 * 4" "isInterior 3 3 1 1" "isBorder 3 3 0 2"
    by code_simp+
  have s: "(0::int) \<le> 50" "(50::int)\<^sup>2 = 30\<^sup>2 + 40\<^sup>2"
    by simp_all
  note t = sobelEdge_contract[OF h(1)]
  from t have l: "length (sobelEdge rampImage 3 3) = 3 * 3" by blast
  from t h(2) have "sobelEdge rampImage 3 3 ! (1 * 3 + 1)
          = map_option fl32 (js_sqrt (of_int ((convolve kernelX rampImage 3 1 1)\<^sup>2
                                              + (convolve kernelY rampImage 3 1 1)\<^sup>2)))"
    by blast
  then have a: "sobelEdge rampImage 3 3 ! (1 * 3 + 1)
                = map_option fl32 (js_sqrt (of_int (30\<^sup>2 + 40\<^sup>2)))"
    unfolding rampImage_gradients .
  from t h(2) have "\<forall>m. 0 \<le> m \<and> m\<^sup>2 = (convolve kernelX rampImage 3 1 1)\<^sup>2
                                    + (convolve kernelY rampImage 3 1 1)\<^sup>2 \<longrightarrow>
                sobelEdge rampImage 3 3 ! (1 * 3 + 1) = Some (of_int m)"
    by blast
  then have "\<forall>m. 0 \<le> m \<and> m\<^sup>2 = (30::int)\<^sup>2 + 40\<^sup>2 \<longrightarrow>
                sobelEdge rampImage 3 3 ! (1 * 3 + 1) = Some (of_int m)"
    unfolding rampImage_gradients .
  with s have "sobelEdge rampImage 3 3 ! (1 * 3 + 1) = Some (of_int 50)" by blast
  then have b: "sobelEdge rampImage 3 3 ! (1 * 3 + 1) = Some 50" by simp
  from t h(3) have c: "sobelEdge rampImage 3 3 ! (2 * 3 + 0) = Some 0"
    by blast
  from h rampImage_gradients s l a b c show ?thesis by (intro conjI)
qed

section \<open>The conversion entry point: claims\<close>

text \<open>
  C9 (fallback and atomicity). With a file chosen, the high-quality mode on and the server
  reported available, \<open>handleConvert\<close> calls the remote conversion. The remote call fails
  when the file cannot be read, when the request is rejected (server unreachable, request
  timed out) and when the response is an error response. When it fails and the local
  conversion succeeds, the local result becomes the line art and the notice that the quick
  conversion was used is shown. When both fail, the failure notice is shown and the line art,
  the strokes on the canvas and their saved copy are what they were. The failure notice is
  shown exactly when both conversions fail.
\<close>

theorem handleConvert_fallback:
  assumes "selectedFile st = Some file" "qualityMode st = HQ" "apiAvailable st = Some True"
  shows "(\<forall>e b r. convertWithAPI (Inl e) (Inr r) = Inl e
              \<and> convertWithAPI (Inr b) (Inl e) = Inl e
              \<and> (\<not> ok r \<longrightarrow> (\<exists>e'. convertWithAPI (Inr b) (Inr r) = Inl e')))
    \<and> (\<forall>e dataUrl. convertWithAPI (apiBase64 w) (apiFetch w) = Inl e \<and> localRetry w = Inr dataUrl \<longrightarrow>
          lineArtSrc (handleConvert w st) = Some dataUrl
        \<and> alerts (handleConvert w st) = alerts st @ [hqNotice]
        \<and> \<not> isConverting (handleConvert w st))
    \<and> (\<forall>e e'. convertWithAPI (apiBase64 w) (apiFetch w) = Inl e \<and> localRetry w = Inl e' \<longrightarrow>
          lineArtSrc (handleConvert w st) = lineArtSrc st
        \<and> strokes (handleConvert w st) = strokes st
        \<and> drawingData (handleConvert w st) = drawingData st
        \<and> alerts (handleConvert w st) = alerts st @ [failedNotice]
        \<and> \<not> isConverting (handleConvert w st))
    \<and> (alerts (handleConvert w st) = alerts st @ [failedNotice] \<longleftrightarrow>
          (\<exists>e. convertWithAPI (apiBase64 w) (apiFetch w) = Inl e) \<and> (\<exists>e'. localRetry w = Inl e'))"
proof (intro conjI allI impI)
  fix e b r
  show "convertWithAPI (Inl e) (Inr r) = Inl e" by (simp add: convertWithAPI_def)
  show "convertWithAPI (Inr b) (Inl e) = Inl e" by (rule convertWithAPI_unreachable)
  show "\<exists>e'. convertWithAPI (Inr b) (Inr r) = Inl e'" if "\<not> ok r"
    using that by (rule convertWithAPI_error_response)
next
  fix e dataUrl
  assume a: "convertWithAPI (apiBase64 w) (apiFetch w) = Inl e \<and> localRetry w = Inr dataUrl"
  then have h: "handleConvert w st = (alert hqNotice (handleClear (st\<lparr>isConverting := True,
       consoleErrors := consoleErrors st @ [e], lineArtSrc := Some dataUrl\<rparr>)))\<lparr>isConverting := False\<rparr>"
    using handleConvert_remote_failed[OF assms, of w e] by simp
  show "lineArtSrc (handleConvert w st) = Some dataUrl"
    unfolding h by (simp add: alert_def handleClear_def)
  show "alerts (handleConvert w st) = alerts st @ [hqNotice]"
    unfolding h by (simp add: alert_def handleClear_def)
  show "\<not> isConverting (handleConvert w st)"
    unfolding h by simp
next
  fix e e'
  assume a: "convertWithAPI (apiBase64 w) (apiFetch w) = Inl e \<and> localRetry w = Inl e'"
  then have h: "handleConvert w st = st\<lparr>isConverting := False, consoleErrors := consoleErrors st @ [e],
              alerts := alerts st @ [failedNotice]\<rparr>"
    using handleConvert_remote_failed[OF assms, of w e] by simp
  show "lineArtSrc (handleConvert w st) = lineArtSrc st" unfolding h by simp
  show "strokes (handleConvert w st) = strokes st" unfolding h by simp
  show "drawingData (handleConvert w st) = drawingData st" unfolding h by simp
  show "alerts (handleConvert w st) = alerts st @ [failedNotice]" unfolding h by simp
  show "\<not> isConverting (handleConvert w st)" unfolding h by simp
next
  show "alerts (handleConvert w st) = alerts st @ [failedNotice] \<longleftrightarrow>
          (\<exists>e. convertWithAPI (apiBase64 w) (apiFetch w) = Inl e) \<and> (\<exists>e'. localRetry w = Inl e')"
  proof (cases "convertWithAPI (apiBase64 w) (apiFetch w)")
    case (Inr u)
    from handleConvert_remote_ok[OF assms this] show ?thesis
      by (simp add: Inr handleClear_def)
  next
    case (Inl e)
    note h = handleConvert_remote_failed[OF assms Inl]
    show ?thesis
    proof (cases "localRetry w")
      case (Inl e')
      with h \<open>convertWithAPI (apiBase64 w) (apiFetch w) = Inl e\<close> show ?thesis by simp
    next
      case (Inr dataUrl)
      with h \<open>convertWithAPI (apiBase64 w) (apiFetch w) = Inl e\<close> notices_differ show ?thesis
        by (simp add: alert_def handleClear_def)
    qed
  qed
qed

theorem handleConvert_fallback_witness:
  "selectedFile exampleEditor = Some ''photo.png'' \<and> qualityMode exampleEditor = HQ
   \<and> apiAvailable exampleEditor = Some True
   \<and> convertWithAPI (apiBase64 offlineWorld) (apiFetch offlineWorld) = Inl (Thrown ''Failed to fetch'')
   \<and> localRetry offlineWorld = Inr ''data:quick''
   \<and> lineArtSrc (handleConvert offlineWorld exampleEditor) = Some ''data:quick''
   \<and> alerts (handleConvert offlineWorld exampleEditor) = alerts exampleEditor @ [hqNotice]
   \<and> convertWithAPI (apiBase64 brokenWorld) (apiFetch brokenWorld) = Inl (ApiStatus 500)
   \<and> localRetry brokenWorld = Inl (Thrown ''decode'')
   \<and> lineArtSrc (handleConvert brokenWorld exampleEditor) = lineArtSrc exampleEditor
   \<and> strokes (handleConvert brokenWorld exampleEditor) = strokes exampleEditor
   \<and> alerts (handleConvert brokenWorld exampleEditor) = alerts exampleEditor @ [failedNotice]"
proof -
  have h: "selectedFile exampleEditor = Some ''photo.png''" "qualityMode exampleEditor = HQ"
    "apiAvailable exampleEditor = Some True"
    by (simp_all add: exampleEditor_def)
  have o: "convertWithAPI (apiBase64 offlineWorld) (apiFetch offlineWorld) = Inl (Thrown ''Failed to fetch'')"
    "localRetry offlineWorld = Inr ''data:quick''"
    by (simp_all add: offlineWorld_def convertWithAPI_def)
  have b: "convertWithAPI (apiBase64 brokenWorld) (apiFetch brokenWorld) = Inl (ApiStatus 500)"
    "localRetry brokenWorld = Inl (Thrown ''decode'')"
    by (simp_all add: brokenWorld_def convertWithAPI_def)
  from handleConvert_fallback[OF h, of offlineWorld] o
  have 1: "lineArtSrc (handleConvert offlineWorld exampleEditor) = Some ''data:quick''"
    "alerts (handleConvert offlineWorld exampleEditor) = alerts exampleEditor @ [hqNotice]"
    by blast+
  from handleConvert_fallback[OF h, of brokenWorld] b
  have 2: "lineArtSrc (handleConvert brokenWorld exampleEditor) = lineArtSrc exampleEditor"
    "strokes (handleConvert brokenWorld exampleEditor) = strokes exampleEditor"
    "alerts (handleConvert brokenWorld exampleEditor) = alerts exampleEditor @ [failedNotice]"
    by blast+
  from h o b 1 2 show ?thesis by (intro conjI)
qed

section \<open>The resizer: claims\<close>

text \<open>
  C4 as the claim states it fails: for a 1109 x 1109 image and \<open>maxDim = 600\<close> the formula
  \<open>floor (dimension * maxDim / max width height)\<close> gives 600, and the code gives 599, because
  the quotient \<open>600 / 1109\<close> is rounded down to a double and 1109 times that double is the
  double just below 600.
\<close>

theorem resize_double_rounding_counterexample:
  "scaledDimensions 1109 1109 600 = (599, 599) \<and> int (1109 * 600 div max 1109 1109) = 600"
  using resize_1109 by simp

text \<open>
  C4, amended (resizer contract). For positive width, height and \<open>maxDim\<close>, with width and
  height below \<open>2 ^ 25\<close>: when neither dimension exceeds \<open>maxDim\<close> the dimensions pass
  through unchanged; when one does, each output dimension is
  \<open>floor (dimension * maxDim / max width height)\<close> or that number minus one (the rounding of
  the two double operations can cost one pixel). The larger output dimension never exceeds
  \<open>maxDim\<close>, no dimension grows, and a 3000 x 2000 image with \<open>maxDim = 1200\<close> yields exactly
  1200 x 800.
\<close>

theorem resize_contract:
  assumes "0 < width" "0 < height" "0 < maxDim" "width < 2 ^ 25" "height < 2 ^ 25"
  shows "(width \<le> maxDim \<and> height \<le> maxDim \<longrightarrow>
            scaledDimensions width height maxDim = (int width, int height))
    \<and> (maxDim < width \<or> maxDim < height \<longrightarrow>
            fst (scaledDimensions width height maxDim)
              \<in> {int (width * maxDim div max width height) - 1,
                  int (width * maxDim div max width height)}
          \<and> snd (scaledDimensions width height maxDim)
              \<in> {int (height * maxDim div max width height) - 1,
                  int (height * maxDim div max width height)})
    \<and> max (fst (scaledDimensions width height maxDim))
           (snd (scaledDimensions width height maxDim)) \<le> int maxDim
    \<and> fst (scaledDimensions width height maxDim) \<le> int width
    \<and> snd (scaledDimensions width height maxDim) \<le> int height
    \<and> scaledDimensions 3000 2000 1200 = (1200, 800)"
proof (cases "maxDim < width \<or> maxDim < height")
  case False
  then have le: "width \<le> maxDim" "height \<le> maxDim" by simp_all
  from scaledDimensions_unscaled[OF le] le resize_3000 show ?thesis by simp
next
  case True
  define M where "M = max width height"
  from True have mM: "maxDim < M" by (auto simp: M_def)
  have M: "0 < M" "M < 2 ^ 25" "width \<le> M" "height \<le> M"
    using assms by (simp_all add: M_def)
  note sd = scaledDimensions_scaled[OF True, folded M_def]
  note bw = scaled_dimension_bounds[OF assms(1) assms(3) mM M(3) M(2)]
  note bh = scaled_dimension_bounds[OF assms(2) assms(3) mM M(4) M(2)]
  from mM have mle: "maxDim \<le> M" by simp
  note qw = scaled_quotient_le[OF M(1) M(3) mle]
  note qh = scaled_quotient_le[OF M(1) M(4) mle]
  have fw: "fst (scaledDimensions width height maxDim)
      = \<lfloor>fl (of_nat width * fl (of_nat maxDim / of_nat M))\<rfloor>"
    and fh: "snd (scaledDimensions width height maxDim)
      = \<lfloor>fl (of_nat height * fl (of_nat maxDim / of_nat M))\<rfloor>"
    by (simp_all add: sd)
  have 1: "fst (scaledDimensions width height maxDim)
              \<in> {int (width * maxDim div M) - 1, int (width * maxDim div M)}"
    using bw unfolding fw by auto
  have 2: "snd (scaledDimensions width height maxDim)
              \<in> {int (height * maxDim div M) - 1, int (height * maxDim div M)}"
    using bh unfolding fh by auto
  have 3: "fst (scaledDimensions width height maxDim) \<le> int maxDim"
    "fst (scaledDimensions width height maxDim) \<le> int width"
    using bw(2) qw unfolding fw by linarith+
  have 4: "snd (scaledDimensions width height maxDim) \<le> int maxDim"
    "snd (scaledDimensions width height maxDim) \<le> int height"
    using bh(2) qh unfolding fh by linarith+
  from True have 0: "\<not> (width \<le> maxDim \<and> height \<le> maxDim)" by auto
  from 0 1 2 3 4 resize_3000 show ?thesis
    unfolding M_def by (intro conjI impI) (simp, blast+, simp+)
qed

theorem resize_contract_witness:
  "0 < (1109::nat) \<and> 0 < (600::nat) \<and> (1109::nat) < 2 ^ 25 \<and> (600::nat) < 1109
   \<and> fst (scaledDimensions 1109 1109 600)
        \<in> {int (1109 * 600 div max 1109 1109) - 1, int (1109 * 600 div max 1109 1109)}
   \<and> max (fst (scaledDimensions 1109 1109 600)) (snd (scaledDimensions 1109 1109 600)) \<le> int 600
   \<and> fst (scaledDimensions 1109 1109 600) \<le> int 1109
   \<and> 0 < (800::nat) \<and> (800::nat) \<le> 1200 \<and> (600::nat) \<le> 1200
   \<and> scaledDimensions 800 600 1200 = (int 800, int 600)"
proof -
  have h: "0 < (1109::nat)" "0 < (600::nat)" "(1109::nat) < 2 ^ 25" "(600::nat) < 1109"
    "0 < (800::nat)" "(800::nat) \<le> 1200" "(600::nat) \<le> 1200" "0 < (1200::nat)"
    "(800::nat) < 2 ^ 25" "(600::nat) < 2 ^ 25"
    by simp_all
  note a = resize_contract[OF h(1) h(1) h(2) h(3) h(3)]
  note b = resize_contract[OF h(5) h(2) h(8) h(9) h(10)]
  from a h(4) have 1: "fst (scaledDimensions 1109 1109 600)
        \<in> {int (1109 * 600 div max 1109 1109) - 1, int (1109 * 600 div max 1109 1109)}"
    by blast
  from a have 2: "max (fst (scaledDimensions 1109 1109 600)) (snd (scaledDimensions 1109 1109 600)) \<le> int 600"
    "fst (scaledDimensions 1109 1109 600) \<le> int 1109"
    by blast+
  from b h(6,7) have 3: "scaledDimensions 800 600 1200 = (int 800, int 600)"
    by blast
  from h 1 2 3 show ?thesis by (intro conjI)
qed

end
